theory Spec2Isabelle
  imports Complex_Main
begin


section \<open>psearch: database generation (\<open>psearch/gen_db.py\<close>)\<close>

text \<open>
  The chemistry toolkit is external to the program. A molecule is modelled by what the
  program reads from it: its canonical SMILES string (\<open>Chem.MolToSmiles\<close>) and its
  conformers in the order of \<open>mol.GetConformers()\<close>, each with its integer id and an
  abstract geometry \<open>'g\<close>.
\<close>

datatype 'g conformer = Conformer (conf_id: nat) (geom: 'g)

datatype 'g mol = Mol (MolToSmiles: string) (GetConformers: "'g conformer list")

subsection \<open>Python string helpers\<close>

text \<open>\<open>str(n)\<close> of a non-negative Python int: its decimal digits.\<close>

definition digit_char :: "nat \<Rightarrow> char" where
  "digit_char d = char_of (48 + d)"

fun str_nat :: "nat \<Rightarrow> string" where
  "str_nat n = (if n < 10 then [digit_char n] else str_nat (n div 10) @ [digit_char (n mod 10)])"

declare str_nat.simps [simp del]

text \<open>The value a digit string denotes; used to show that \<open>str_nat\<close> is injective.\<close>

definition digits_val :: "string \<Rightarrow> nat" where
  "digits_val s = foldl (\<lambda>acc c. 10 * acc + (of_char c - 48)) 0 s"

text \<open>\<open>s.split('#')[0]\<close>: the part of \<open>s\<close> before its first \<open>#\<close> (all of \<open>s\<close> when
  it has none).\<close>

definition split_hash_0 :: "string \<Rightarrow> string" where
  "split_hash_0 s = takeWhile (\<lambda>c. c \<noteq> CHR ''#'') s"

subsection \<open>The Deduplicator: \<open>check_dupl_input\<close>\<close>

text \<open>
  An entry of \<open>box_mols\<close> is a molecule or the sentinel string \<open>"duplicate"\<close>.
\<close>

datatype 'g box_mol = MolObj "'g mol" | DuplicateStr

text \<open>
  The inner loop of the renaming branch (source lines 72 to 77):
  \<^verbatim>\<open>
  while mol_name in box_mol_ids:
      mol_name = f"{str(mol_name.split('#')[0])}#{str(suffix)}"
      suffix += 1
  \<close>
  The warnings written to standard output are not part of the model.
\<close>

function rename_loop :: "string list \<Rightarrow> string \<Rightarrow> nat \<Rightarrow> string" where
  "rename_loop box_mol_ids mol_name suffix =
     (if mol_name \<in> set box_mol_ids
      then rename_loop box_mol_ids (split_hash_0 mol_name @ ''#'' @ str_nat suffix) (suffix + 1)
      else mol_name)"
  by pat_completeness auto

lemma digits_val_snoc: "digits_val (s @ [c]) = 10 * digits_val s + (of_char c - 48)"
  by (simp add: digits_val_def)

lemma of_char_digit_char: "d < 10 \<Longrightarrow> of_char (digit_char d) = 48 + d"
  by (simp add: digit_char_def)

lemma digits_val_str_nat: "digits_val (str_nat n) = n"
proof (induction n rule: str_nat.induct)
  case (1 n)
  show ?case
  proof (cases "n < 10")
    case True
    then show ?thesis
      by (simp add: str_nat.simps [of n] digits_val_def of_char_digit_char)
  next
    case False
    have "digits_val (str_nat n) = 10 * digits_val (str_nat (n div 10)) + (of_char (digit_char (n mod 10)) - 48)"
      using False by (simp add: str_nat.simps [of n] digits_val_snoc)
    also have "\<dots> = 10 * (n div 10) + n mod 10"
      using False "1.IH" by (simp add: of_char_digit_char)
    finally show ?thesis by simp
  qed
qed

lemma str_nat_inj: "str_nat m = str_nat n \<Longrightarrow> m = n"
  by (metis digits_val_str_nat)

lemma split_hash_0_idem: "split_hash_0 (split_hash_0 s @ CHR ''#'' # t) = split_hash_0 s"
proof -
  have "\<forall>c \<in> set (split_hash_0 s). c \<noteq> CHR ''#''"
    unfolding split_hash_0_def by (auto dest: set_takeWhileD)
  then show ?thesis
    unfolding split_hash_0_def by simp
qed

lemma finite_numbered: "finite {k. f k \<in> set (xs :: string list)}" if "inj f" for f :: "nat \<Rightarrow> string"
proof -
  have "{k. f k \<in> set xs} = f -` set xs" by auto
  then show ?thesis using that by (simp add: finite_vimageI)
qed

termination rename_loop
proof (relation "measure (\<lambda>(ids, name, suffix).
          card {k. suffix \<le> k \<and> split_hash_0 name @ ''#'' @ str_nat k \<in> set ids}
          + (if name \<in> set ids then 1 else 0))", goal_cases)
  case 1
  show ?case by simp
next
  case (2 ids name suffix)
  let ?f = "\<lambda>k. split_hash_0 name @ ''#'' @ str_nat k"
  let ?A = "{k. suffix \<le> k \<and> ?f k \<in> set ids}"
  let ?B = "{k. suffix + 1 \<le> k \<and> ?f k \<in> set ids}"
  have "inj ?f" by (rule injI) (simp add: str_nat_inj)
  then have "finite {k. ?f k \<in> set ids}" by (rule finite_numbered)
  then have finA: "finite ?A" by (rule rev_finite_subset) auto
  have card: "card ?B + (if ?f suffix \<in> set ids then 1 else 0) = card ?A"
  proof (cases "?f suffix \<in> set ids")
    case True
    have "?A = insert suffix ?B" using True by (auto simp: le_Suc_eq)
    moreover have "suffix \<notin> ?B" by simp
    moreover have "finite ?B" using finA by (rule rev_finite_subset) auto
    ultimately show ?thesis using True by simp
  next
    case False
    have "?A = ?B"
    proof (rule set_eqI)
      fix k
      show "k \<in> ?A \<longleftrightarrow> k \<in> ?B"
        using False by (cases "k = suffix") auto
    qed
    then show ?thesis using False by simp
  qed
  show ?case using 2 card by (simp add: split_hash_0_idem)
qed

declare rename_loop.simps [simp del]

text \<open>
  The four parallel lists \<open>box_mols, box_smi, box_mol_ids, box_flags\<close>.
\<close>

type_synonym 'g boxes = "'g box_mol list \<times> string list \<times> string list \<times> bool list"

text \<open>One iteration of the loop over \<open>read_input(fname)\<close> (source lines 58 to 86).\<close>

fun dedup_step :: "'g mol \<times> string \<Rightarrow> 'g boxes \<Rightarrow> 'g boxes" where
  "dedup_step (mol, mol_name) (box_mols, box_smi, box_mol_ids, box_flags) =
     (if MolToSmiles mol \<in> set box_smi then
        (box_mols @ [DuplicateStr], box_smi @ [''duplicate''],
         box_mol_ids @ [mol_name], box_flags @ [True])
      else if mol_name \<in> set box_mol_ids then
        (box_mols @ [MolObj mol], box_smi @ [MolToSmiles mol],
         box_mol_ids @ [rename_loop box_mol_ids mol_name 1], box_flags @ [True])
      else
        (box_mols @ [MolObj mol], box_smi @ [MolToSmiles mol],
         box_mol_ids @ [mol_name], box_flags @ [False]))"

text \<open>
  \<open>check_dupl_input\<close> on the sequence of (molecule, name) pairs that \<open>read_input\<close> yields.
\<close>

definition check_dupl_input :: "('g mol \<times> string) list \<Rightarrow> 'g boxes" where
  "check_dupl_input records = fold dedup_step records ([], [], [], [])"

definition box_mols_of :: "'g boxes \<Rightarrow> 'g box_mol list" where
  "box_mols_of b = fst b"

definition box_smi_of :: "'g boxes \<Rightarrow> string list" where
  "box_smi_of b = fst (snd b)"

definition box_mol_ids_of :: "'g boxes \<Rightarrow> string list" where
  "box_mol_ids_of b = fst (snd (snd b))"

definition box_flags_of :: "'g boxes \<Rightarrow> bool list" where
  "box_flags_of b = snd (snd (snd b))"

text \<open>
  The invariant of the loop: the four lists grow together, and the identifier of an entry
  that is not the sentinel differs from every identifier before it.
\<close>

definition fresh_ids :: "'g boxes \<Rightarrow> bool" where
  "fresh_ids b \<longleftrightarrow>
     length (box_mols_of b) = length (box_mol_ids_of b) \<and>
     (\<forall>i < length (box_mol_ids_of b).
        box_mols_of b ! i \<noteq> DuplicateStr \<longrightarrow> box_mol_ids_of b ! i \<notin> set (take i (box_mol_ids_of b)))"

subsection \<open>The Conformer Pruner: \<open>remove_confs\<close>\<close>

text \<open>
  The toolkit calls of \<open>remove_confs\<close> are parameters of the model:
  \<^item> \<open>ff\<close> stands for \<open>AllChem.MMFFGetMoleculeForceField(mol, ..., confId=i)\<close> followed by
    \<open>ff.CalcEnergy()\<close>: the energy of a conformer, \<open>None\<close> when no force field is returned;
  \<^item> \<open>GetConformerRMS\<close> stands for \<open>AllChem.GetConformerRMS(mol, i1, i2)\<close>.
  Energies and RMS values are Python floats, modelled as reals.

  A geometry is the shape of a conformer: \<open>GetConformerRMS\<close> aligns its second conformer to
  the first one in place, which moves the conformer and leaves its shape, its energy and its
  RMS to other conformers as they are.

  The toolkit addresses a conformer by its id and takes the first conformer that carries it
  (\<open>GetConformer\<close>). The ids of the conformers of a molecule are pairwise distinct (\<open>wf_mol\<close>;
  \<open>EmbedMultipleConfs\<close> numbers them from 0), so an id names one conformer, the one it was
  read from (lemma \<open>GetConformer_conf_id\<close>). Where the source keeps an id in \<open>e\<close>,
  \<open>kept_ids\<close> or \<open>rms_list\<close> and hands it back to the toolkit, the model keeps the conformer
  and reads \<open>conf_id\<close> of it where the source compares or stores the id. The properties of
  \<open>remove_confs\<close> below are stated for molecules that satisfy \<open>wf_mol\<close>.
\<close>

definition wf_mol :: "'g mol \<Rightarrow> bool" where
  "wf_mol mol = distinct (map conf_id (GetConformers mol))"

definition GetConformer :: "'g mol \<Rightarrow> nat \<Rightarrow> 'g conformer option" where
  "GetConformer mol cid = find (\<lambda>conf. conf_id conf = cid) (GetConformers mol)"

text \<open>
  Source lines 114 to 120: the list \<open>e\<close> before sorting, or \<open>None\<close> when the loop returns
  because a force field is missing.
\<close>

fun conf_energies :: "('g \<Rightarrow> real option) \<Rightarrow> 'g conformer list \<Rightarrow> ('g conformer \<times> real) list option" where
  "conf_energies ff [] = Some []"
| "conf_energies ff (conf # confs) =
     (case ff (geom conf) of
        None \<Rightarrow> None
      | Some en \<Rightarrow>
          (case conf_energies ff confs of
             None \<Rightarrow> None
           | Some e \<Rightarrow> Some ((conf, en) # e)))"

text \<open>\<open>itertools.combinations(xs, 2)\<close>.\<close>

fun combinations2 :: "'a list \<Rightarrow> ('a \<times> 'a) list" where
  "combinations2 [] = []"
| "combinations2 (x # xs) = map (Pair x) xs @ combinations2 xs"

text \<open>
  Source lines 129 to 134: the conformers kept by the energy cutoff, after the lowest one,
  and the ids marked for removal. Without a cutoff the loop does not run.
\<close>

definition kept_by_energy ::
  "'g conformer \<times> real \<Rightarrow> ('g conformer \<times> real) list \<Rightarrow> real option \<Rightarrow> 'g conformer list" where
  "kept_by_energy e0 e_tl energy =
     fst e0 # (case energy of
                 None \<Rightarrow> []
               | Some en \<Rightarrow> map fst (filter (\<lambda>item. snd item - snd e0 \<le> en) e_tl))"

definition removed_by_energy ::
  "'g conformer \<times> real \<Rightarrow> ('g conformer \<times> real) list \<Rightarrow> real option \<Rightarrow> nat list" where
  "removed_by_energy e0 e_tl energy =
     (case energy of
        None \<Rightarrow> []
      | Some en \<Rightarrow> map (\<lambda>item. conf_id (fst item)) (filter (\<lambda>item. \<not> snd item - snd e0 \<le> en) e_tl))"

text \<open>Source line 137: \<open>rms_list\<close>.\<close>

definition rms_list_of ::
  "('g \<Rightarrow> 'g \<Rightarrow> real) \<Rightarrow> 'g conformer list \<Rightarrow> ('g conformer \<times> 'g conformer \<times> real) list" where
  "rms_list_of GetConformerRMS kept_ids =
     map (\<lambda>(i1, i2). (i1, i2, GetConformerRMS (geom i1) (geom i2))) (combinations2 kept_ids)"

text \<open>
  Source lines 138 to 143: the first item of \<open>rms_list\<close> below the threshold has its second
  conformer marked for removal, every item that names this conformer leaves the list, and
  the loop starts again.
\<close>

function rms_loop ::
  "real \<Rightarrow> ('g conformer \<times> 'g conformer \<times> real) list \<Rightarrow> nat list \<Rightarrow> nat list" where
  "rms_loop rms rms_list remove_ids =
     (case find (\<lambda>item. snd (snd item) < rms) rms_list of
        None \<Rightarrow> remove_ids
      | Some item \<Rightarrow>
          rms_loop rms
            (filter (\<lambda>i. conf_id (fst i) \<noteq> conf_id (fst (snd item))
                        \<and> conf_id (fst (snd i)) \<noteq> conf_id (fst (snd item))) rms_list)
            (remove_ids @ [conf_id (fst (snd item))]))"
  by pat_completeness auto

lemma find_Some_mem: "find P xs = Some x \<Longrightarrow> x \<in> set xs \<and> P x"
  by (induction xs) (auto split: if_splits)

termination rms_loop
proof (relation "measure (\<lambda>(rms, rms_list, remove_ids). length rms_list)", goal_cases)
  case 1
  show ?case by simp
next
  case (2 rms rms_list remove_ids item)
  then have "item \<in> set rms_list" by (simp add: find_Some_mem)
  then have "length (filter (\<lambda>i. conf_id (fst i) \<noteq> conf_id (fst (snd item))
                        \<and> conf_id (fst (snd i)) \<noteq> conf_id (fst (snd item))) rms_list)
      < length rms_list"
    by (intro length_filter_less [of item]) auto
  then show ?case by simp
qed

declare rms_loop.simps [simp del]

text \<open>\<open>mol.RemoveConformer(cid)\<close> removes the first conformer that carries the id.\<close>

fun RemoveConformer :: "nat \<Rightarrow> 'g conformer list \<Rightarrow> 'g conformer list" where
  "RemoveConformer cid [] = []"
| "RemoveConformer cid (conf # confs) =
     (if conf_id conf = cid then confs else conf # RemoveConformer cid confs)"

text \<open>Source lines 149 and 150: \<open>conf.SetId(i)\<close> for every conformer, counting from 0.\<close>

definition reindex :: "'g conformer list \<Rightarrow> 'g conformer list" where
  "reindex confs = map (\<lambda>(i, conf). Conformer i (geom conf)) (enumerate 0 confs)"

text \<open>
  The ids in \<open>remove_ids\<close> when the loops are over (source lines 126 to 143), from the sorted
  list \<open>e = e0 # e_tl\<close>.
\<close>

definition final_remove_ids ::
  "('g \<Rightarrow> 'g \<Rightarrow> real) \<Rightarrow> 'g conformer \<times> real \<Rightarrow> ('g conformer \<times> real) list
     \<Rightarrow> real option \<Rightarrow> real option \<Rightarrow> nat list" where
  "final_remove_ids GetConformerRMS e0 e_tl energy rms =
     (case rms of
        None \<Rightarrow> removed_by_energy e0 e_tl energy
      | Some r \<Rightarrow>
          rms_loop r (rms_list_of GetConformerRMS (kept_by_energy e0 e_tl energy))
            (removed_by_energy e0 e_tl energy))"

text \<open>
  \<open>remove_confs(mol, energy, rms)\<close> changes the molecule in place and returns nothing; the
  model returns the molecule afterwards and the lines written to standard error. The set
  \<open>set(remove_ids)\<close> is walked in the order of \<open>remdups\<close>; under \<open>wf_mol\<close> the order makes no
  difference (lemma \<open>fold_RemoveConformer\<close>).
\<close>

definition remove_confs ::
  "('g \<Rightarrow> real option) \<Rightarrow> ('g \<Rightarrow> 'g \<Rightarrow> real) \<Rightarrow> 'g mol \<Rightarrow> real option \<Rightarrow> real option
     \<Rightarrow> 'g mol \<times> string list" where
  "remove_confs ff GetConformerRMS mol energy rms =
     (case conf_energies ff (GetConformers mol) of
        None \<Rightarrow> (mol, [MolToSmiles mol @ ''. MMFFGetMoleculeForceField return NONE'' @ [CHR 0x0A]])
      | Some e_unsorted \<Rightarrow>
          (case sort_key snd e_unsorted of
             [] \<Rightarrow> (mol, [])
           | e0 # e_tl \<Rightarrow>
               (Mol (MolToSmiles mol)
                  (reindex (fold RemoveConformer
                     (remdups (final_remove_ids GetConformerRMS e0 e_tl energy rms))
                     (GetConformers mol))),
                [])))"

text \<open>
  Two notions for stating and proving properties of \<open>remove_confs\<close>: the energy of a geometry
  as a number (read only where the force field exists), and the ids that \<open>remove_confs\<close>
  has in \<open>remove_ids\<close> when its loops are over, as a function of the conformers.
\<close>

definition energy_val :: "('g \<Rightarrow> real option) \<Rightarrow> 'g \<Rightarrow> real" where
  "energy_val ff g = (case ff g of None \<Rightarrow> 0 | Some en \<Rightarrow> en)"

definition marked_ids ::
  "('g \<Rightarrow> real option) \<Rightarrow> ('g \<Rightarrow> 'g \<Rightarrow> real) \<Rightarrow> 'g conformer list \<Rightarrow> real option \<Rightarrow> real option \<Rightarrow> nat list" where
  "marked_ids ff G confs energy rms =
     (case sort_key (\<lambda>c. energy_val ff (geom c)) confs of
        [] \<Rightarrow> []
      | c0 # T \<Rightarrow>
          final_remove_ids G (c0, energy_val ff (geom c0))
            (map (\<lambda>c. (c, energy_val ff (geom c))) T) energy rms)"

subsection \<open>The unit of work: \<open>gen_data\<close>\<close>

text \<open>
  \<open>gen_stereo\<close> and \<open>gen_conf\<close> consist of toolkit calls only (stereoisomer enumeration,
  embedding and optimisation), and \<open>utils.load_multi_conf_mol\<close> is the pharmacophore library.
  They are fields of a record of toolkit functions, next to the two functions that
  \<open>remove_confs\<close> uses. A pharmacophore is modelled by the two values the program reads from
  it, \<open>get_feature_coords()\<close> and \<open>get_fp()\<close>.
\<close>

record ('g, 'c, 'f) toolkit =
  gen_stereo :: "'g mol \<Rightarrow> nat \<Rightarrow> 'g mol list"
  gen_conf :: "'g mol \<Rightarrow> nat \<Rightarrow> int \<Rightarrow> 'g mol"
  mmff_energy :: "'g \<Rightarrow> real option"
  conformer_rms :: "'g \<Rightarrow> 'g \<Rightarrow> real"
  load_multi_conf_mol :: "'g mol \<Rightarrow> string option \<Rightarrow> nat \<Rightarrow> ('c \<times> 'f) list"

text \<open>
  The three dictionaries of \<open>gen_data\<close> are keyed by the index of the stereoisomer; each key
  is assigned once, so a dictionary is the list of its items in insertion order.
\<close>

type_synonym ('g, 'c, 'f) dicts =
  "(nat \<times> 'g mol) list \<times> (nat \<times> 'c list) list \<times> (nat \<times> 'f list) list"

text \<open>
  The body of the loop over \<open>enumerate(isomers)\<close> (source lines 159 to 165), with the lines
  written to standard error so far. The result of \<open>remove_confs\<close> is not looked at: whatever
  it did, the molecule goes on to \<open>load_multi_conf_mol\<close> and into the dictionaries.
\<close>

definition gen_data_step ::
  "('g, 'c, 'f) toolkit \<Rightarrow> nat \<Rightarrow> real option \<Rightarrow> real option \<Rightarrow> int \<Rightarrow> nat \<Rightarrow> string option
     \<Rightarrow> nat \<times> 'g mol \<Rightarrow> ('g, 'c, 'f) dicts \<times> string list \<Rightarrow> ('g, 'c, 'f) dicts \<times> string list" where
  "gen_data_step tk nconf energy rms seed bin_step pharm_def i_mol acc =
     (case (i_mol, acc) of
        ((i, mol), ((mol_dict, ph_dict, fp_dict), err)) \<Rightarrow>
          (case remove_confs (mmff_energy tk) (conformer_rms tk) (gen_conf tk mol nconf seed) energy rms of
             (mol', lines) \<Rightarrow>
               ((mol_dict @ [(i, mol')],
                 ph_dict @ [(i, map fst (load_multi_conf_mol tk mol' pharm_def bin_step))],
                 fp_dict @ [(i, map snd (load_multi_conf_mol tk mol' pharm_def bin_step))]),
                err @ lines)))"

text \<open>
  \<open>gen_data\<close> returns the tuple \<open>(mol_name, mol_dict, ph_dict, fp_dict)\<close>; the model pairs it
  with the lines written to standard error.
\<close>

definition gen_data ::
  "('g, 'c, 'f) toolkit \<Rightarrow> 'g mol \<times> string \<Rightarrow> nat \<Rightarrow> nat \<Rightarrow> real option \<Rightarrow> real option \<Rightarrow> int
     \<Rightarrow> nat \<Rightarrow> string option \<Rightarrow> (string \<times> ('g, 'c, 'f) dicts) \<times> string list" where
  "gen_data tk mol_cid nconf nstereo energy rms seed bin_step pharm_def =
     (case mol_cid of
        (mol, mol_name) \<Rightarrow>
          (case fold (gen_data_step tk nconf energy rms seed bin_step pharm_def)
                  (enumerate 0 (gen_stereo tk mol nstereo)) (([], [], []), []) of
             (dicts, err) \<Rightarrow> ((mol_name, dicts), err)))"

subsection \<open>The orchestrator: \<open>create_db\<close>\<close>

text \<open>\<open>get_mol\<close> skips the entries that hold the sentinel.\<close>

fun get_mol :: "('g box_mol \<times> string) list \<Rightarrow> ('g mol \<times> string) list" where
  "get_mol [] = []"
| "get_mol ((DuplicateStr, mol_name) # mols) = get_mol mols"
| "get_mol ((MolObj mol, mol_name) # mols) = (mol, mol_name) # get_mol mols"

text \<open>
  Modelled from the spec: the record store \<open>DB\<close> (\<open>psearch/database.py\<close> is not among the
  sources). The spec gives it the operations \<open>write_bin_step(value)\<close>,
  \<open>write_mol(identifier, mapping)\<close>, \<open>write_pharm(identifier, mapping)\<close> and
  \<open>write_fp(identifier, mapping)\<close>; a store is modelled by the sequence of the writes made
  to it.
\<close>

datatype ('g, 'c, 'f) db_write =
    write_bin_step nat
  | write_mol string "(nat \<times> 'g mol) list"
  | write_pharm string "(nat \<times> 'c list) list"
  | write_fp string "(nat \<times> 'f list) list"

text \<open>
  The body of the loop over the results of the pool (source lines 188 to 193). A result of
  \<open>gen_data\<close> is a tuple of four values, which Python takes as true, so the test
  \<open>if not data\<close> never skips one. The pool hands the results over in the order they are
  finished; the model takes them in the order of submission.
\<close>

definition write_unit ::
  "(string \<times> ('g, 'c, 'f) dicts) \<times> string list
     \<Rightarrow> ('g, 'c, 'f) db_write list \<times> string list \<Rightarrow> ('g, 'c, 'f) db_write list \<times> string list" where
  "write_unit data acc =
     (case (data, acc) of
        (((mol_name, (mol_dict, ph_dict, fp_dict)), lines), (db, err)) \<Rightarrow>
          (db @ [write_mol mol_name mol_dict, write_pharm mol_name ph_dict, write_fp mol_name fp_dict],
           err @ lines))"

text \<open>\<open>s.lower()\<close> on ASCII letters, and \<open>s.endswith(suffix)\<close>.\<close>

definition lower_char :: "char \<Rightarrow> char" where
  "lower_char c = (if 65 \<le> (of_char c :: nat) \<and> (of_char c :: nat) \<le> 90
                   then char_of ((of_char c :: nat) + 32) else c)"

definition lower :: "string \<Rightarrow> string" where
  "lower s = map lower_char s"

definition endswith :: "string \<Rightarrow> string \<Rightarrow> bool" where
  "endswith s suffix = (length suffix \<le> length s \<and> drop (length s - length suffix) s = suffix)"

text \<open>
  \<open>os.path.splitext(p)[0]\<close> on a POSIX path: \<open>p\<close> up to its last dot, when that dot comes
  after the last slash and after a character of the file name that is not a dot; else \<open>p\<close>.
\<close>

definition splitext_root :: "string \<Rightarrow> string" where
  "splitext_root p =
     (let ext = rev (takeWhile (\<lambda>c. c \<noteq> CHR ''.'') (rev p));
          root = take (length p - length ext - 1) p;
          filename = rev (takeWhile (\<lambda>c. c \<noteq> CHR ''/'') (rev root))
      in if CHR ''.'' \<in> set p \<and> CHR ''/'' \<notin> set ext \<and> (\<exists>c \<in> set filename. c \<noteq> CHR ''.'')
         then root else p)"

text \<open>
  The search for a free name (source lines 209 to 211), \<open>existing\<close> being the paths for which
  \<open>os.path.exists\<close> holds:
  \<^verbatim>\<open>
  while os.path.exists(new_in_fname):
      new_in_fname = f"{os.path.splitext(in_fname)[0]}-updated{str(suffix)}.smi"
      suffix += 1
  \<close>
\<close>

function new_name_loop :: "string list \<Rightarrow> string \<Rightarrow> string \<Rightarrow> nat \<Rightarrow> string" where
  "new_name_loop existing in_fname new_in_fname suffix =
     (if new_in_fname \<in> set existing
      then new_name_loop existing in_fname
             (splitext_root in_fname @ ''-updated'' @ str_nat suffix @ ''.smi'') (suffix + 1)
      else new_in_fname)"
  by pat_completeness auto

termination new_name_loop
proof (relation "measure (\<lambda>(existing, in_fname, name, suffix).
          card {k. suffix \<le> k \<and> splitext_root in_fname @ ''-updated'' @ str_nat k @ ''.smi'' \<in> set existing}
          + (if name \<in> set existing then 1 else 0))", goal_cases)
  case 1
  show ?case by simp
next
  case (2 existing in_fname name suffix)
  let ?f = "\<lambda>k. splitext_root in_fname @ ''-updated'' @ str_nat k @ ''.smi''"
  let ?A = "{k. suffix \<le> k \<and> ?f k \<in> set existing}"
  let ?B = "{k. suffix + 1 \<le> k \<and> ?f k \<in> set existing}"
  have "inj ?f" by (rule injI) (simp add: str_nat_inj)
  then have "finite {k. ?f k \<in> set existing}" by (rule finite_numbered)
  then have finA: "finite ?A" by (rule rev_finite_subset) auto
  have card: "card ?B + (if ?f suffix \<in> set existing then 1 else 0) = card ?A"
  proof (cases "?f suffix \<in> set existing")
    case True
    have "?A = insert suffix ?B" using True by (auto simp: le_Suc_eq)
    moreover have "suffix \<notin> ?B" by simp
    moreover have "finite ?B" using finA by (rule rev_finite_subset) auto
    ultimately show ?thesis using True by simp
  next
    case False
    have "?A = ?B"
    proof (rule set_eqI)
      fix k
      show "k \<in> ?A \<longleftrightarrow> k \<in> ?B"
        using False by (cases "k = suffix") auto
    qed
    then show ?thesis using False by simp
  qed
  show ?case using 2 card by simp
qed

declare new_name_loop.simps [simp del]

text \<open>
  The file that \<open>df_cid.to_csv(new_in_fname, sep='\t', index=None)\<close> is asked to write: the
  separator, the header row of column names (written by default) and one row per record,
  without the index column. How pandas renders a row as text is not modelled.
\<close>

record csv_file =
  csv_sep :: char
  csv_header :: "string list"
  csv_rows :: "string list list"

definition str_bool :: "bool \<Rightarrow> string" where
  "str_bool b = (if b then ''True'' else ''False'')"

definition manifest_file :: "string list \<Rightarrow> string list \<Rightarrow> bool list \<Rightarrow> csv_file" where
  "manifest_file smis cids flags =
     \<lparr>csv_sep = CHR 0x09,
      csv_header = [''smi'', ''cid'', ''if_changed''],
      csv_rows = map (\<lambda>(smi, cid, if_changed). [smi, cid, str_bool if_changed])
                   (zip smis (zip cids flags))\<rparr>"

text \<open>\<open>sum(flags)\<close>: the number of true flags.\<close>

definition sum_flags :: "bool list \<Rightarrow> int" where
  "sum_flags flags = sum_list (map (\<lambda>b. if b then 1 else 0) flags)"

text \<open>
  Source lines 202 to 213: the manifest written, if any, as its path and content.
\<close>

definition write_manifest ::
  "string list \<Rightarrow> string \<Rightarrow> string list \<Rightarrow> string list \<Rightarrow> bool list \<Rightarrow> (string \<times> csv_file) option" where
  "write_manifest existing in_fname smis cids flags =
     (if sum_flags flags > 0
      then Some (new_name_loop existing in_fname (splitext_root in_fname @ ''-updated.smi'') 2,
                 manifest_file smis cids flags)
      else None)"

datatype error = WrongOutputFormat

record ('g, 'c, 'f) run =
  db :: "('g, 'c, 'f) db_write list"
  manifest :: "(string \<times> csv_file) option"
  stderr :: "string list"

text \<open>
  \<open>create_db\<close>. Two arguments stand for what the program reads from its environment:
  \<open>records\<close>, the pairs that \<open>read_input(in_fname)\<close> yields, and \<open>existing\<close>, the paths that
  exist when the name of the manifest is chosen. The progress messages on standard output,
  \<open>verbose\<close> and the size of the pool (\<open>ncpu\<close>) have no part in the result and are left out.
  A wrong extension of \<open>out_fname\<close> raises before anything is read or written.
\<close>

definition create_db ::
  "('g, 'c, 'f) toolkit \<Rightarrow> string list \<Rightarrow> ('g mol \<times> string) list \<Rightarrow> string \<Rightarrow> string
     \<Rightarrow> nat \<Rightarrow> nat \<Rightarrow> real option \<Rightarrow> real option \<Rightarrow> nat \<Rightarrow> string option \<Rightarrow> int
     \<Rightarrow> error + ('g, 'c, 'f) run" where
  "create_db tk existing records in_fname out_fname nconf nstereo energy rms bin_step pharm_def seed =
     (if endswith (lower out_fname) ''.dat'' then
        (case check_dupl_input records of
           (mols, smis, cids, flags) \<Rightarrow>
             (case fold (\<lambda>mol_cid.
                       write_unit (gen_data tk mol_cid nconf nstereo energy rms seed bin_step pharm_def))
                     (get_mol (zip mols cids)) ([write_bin_step bin_step], []) of
                (db', err) \<Rightarrow>
                  Inr \<lparr>db = db', manifest = write_manifest existing in_fname smis cids flags,
                       stderr = err\<rparr>))
      else Inl WrongOutputFormat)"
subsection \<open>Properties of the Deduplicator\<close>

lemma rename_loop_stop: "mol_name \<notin> set ids \<Longrightarrow> rename_loop ids mol_name s = mol_name"
  by (simp add: rename_loop.simps)

lemma rename_loop_next:
  "mol_name \<in> set ids \<Longrightarrow>
   rename_loop ids mol_name s = rename_loop ids (split_hash_0 mol_name @ ''#'' @ str_nat s) (s + 1)"
  by (subst rename_loop.simps) simp

lemma rename_loop_fresh: "rename_loop ids name s \<notin> set ids"
  by (induction ids name s rule: rename_loop.induct) (simp add: rename_loop.simps)

lemma rename_loop_least:
  "name \<in> set ids \<Longrightarrow>
   \<exists>k\<ge>s. rename_loop ids name s = split_hash_0 name @ ''#'' @ str_nat k
        \<and> split_hash_0 name @ ''#'' @ str_nat k \<notin> set ids
        \<and> (\<forall>j. s \<le> j \<and> j < k \<longrightarrow> split_hash_0 name @ ''#'' @ str_nat j \<in> set ids)"
proof (induction ids name s rule: rename_loop.induct)
  case (1 ids name s)
  let ?N = "\<lambda>k. split_hash_0 name @ ''#'' @ str_nat k"
  have unfold: "rename_loop ids name s = rename_loop ids (?N s) (s + 1)"
    using "1.prems" by (rule rename_loop_next)
  show ?case
  proof (cases "?N s \<in> set ids")
    case False
    then have "rename_loop ids name s = ?N s"
      using unfold rename_loop_stop [of "?N s" ids "s + 1"] by simp
    with False show ?thesis by (intro exI [of _ s]) auto
  next
    case True
    from "1.IH" [OF "1.prems" True]
    obtain k where k: "s + 1 \<le> k" "rename_loop ids (?N s) (s + 1) = ?N k" "?N k \<notin> set ids"
      "\<forall>j. s + 1 \<le> j \<and> j < k \<longrightarrow> ?N j \<in> set ids"
      by (auto simp: split_hash_0_idem)
    have "\<forall>j. s \<le> j \<and> j < k \<longrightarrow> ?N j \<in> set ids"
    proof (intro allI impI)
      fix j assume "s \<le> j \<and> j < k"
      then show "?N j \<in> set ids" using True k(4) by (cases "j = s") auto
    qed
    with k unfold show ?thesis by (intro exI [of _ k]) auto
  qed
qed

lemma check_dupl_input_snoc:
  "check_dupl_input (xs @ [x]) = dedup_step x (check_dupl_input xs)"
  by (simp add: check_dupl_input_def)

lemma fresh_ids_step: "fresh_ids b \<Longrightarrow> fresh_ids (dedup_step x b)"
proof -
  assume inv: "fresh_ids b"
  obtain mol name where x: "x = (mol, name)" by (cases x)
  obtain mols smi ids flags where b: "b = (mols, smi, ids, flags)" by (cases b) auto
  from inv b have len: "length mols = length ids"
    and old: "\<And>i. i < length ids \<Longrightarrow> mols ! i \<noteq> DuplicateStr \<Longrightarrow> ids ! i \<notin> set (take i ids)"
    by (auto simp: fresh_ids_def box_mols_of_def box_mol_ids_of_def)
  have ext: "fresh_ids (mols @ [m], smi', ids @ [n], flags')"
    if "m \<noteq> DuplicateStr \<longrightarrow> n \<notin> set ids" for m n smi' flags'
    unfolding fresh_ids_def box_mols_of_def box_mol_ids_of_def
  proof (simp add: len, intro allI impI)
    fix i assume i: "i < Suc (length ids)" and nd: "(mols @ [m]) ! i \<noteq> DuplicateStr"
    show "(ids @ [n]) ! i \<notin> set (take i ids)"
    proof (cases "i < length ids")
      case True
      then show ?thesis using old [of i] nd len by (simp add: nth_append)
    next
      case False
      with i have "i = length ids" by simp
      then show ?thesis using nd that len by (simp add: nth_append)
    qed
  qed
  show ?thesis
    unfolding x b by (simp add: ext rename_loop_fresh)
qed

lemma fresh_ids_check: "fresh_ids (check_dupl_input xs)"
proof (induction xs rule: rev_induct)
  case Nil
  show ?case by (simp add: check_dupl_input_def fresh_ids_def box_mols_of_def box_mol_ids_of_def)
next
  case (snoc x xs)
  then show ?case by (simp add: check_dupl_input_snoc fresh_ids_step)
qed



lemma rename_A_1: "rename_loop [''A''] ''A'' (Suc 0) = ''A#1''"
  by code_simp

lemma rename_A_2: "rename_loop [''A'', ''A#1''] ''A'' (Suc 0) = ''A#2''"
  by code_simp


lemma check_dupl_input_lengths:
  "length (box_mols_of (check_dupl_input xs)) = length xs \<and>
   length (box_smi_of (check_dupl_input xs)) = length xs \<and>
   length (box_mol_ids_of (check_dupl_input xs)) = length xs \<and>
   length (box_flags_of (check_dupl_input xs)) = length xs"
proof (induction xs rule: rev_induct)
  case Nil
  show ?case
    by (simp add: check_dupl_input_def box_mols_of_def box_smi_of_def box_mol_ids_of_def box_flags_of_def)
next
  case (snoc x xs)
  obtain mol name where x: "x = (mol, name)" by (cases x)
  obtain mols smi ids flags where b: "check_dupl_input xs = (mols, smi, ids, flags)"
    by (cases "check_dupl_input xs") auto
  from snoc show ?case
    by (simp add: check_dupl_input_snoc x b box_mols_of_def box_smi_of_def box_mol_ids_of_def box_flags_of_def)
qed

lemma dedup_step_collision:
  "MolToSmiles mol \<notin> set smi \<Longrightarrow> mol_name \<in> set ids \<Longrightarrow>
   dedup_step (mol, mol_name) (mols, smi, ids, flags) =
     (mols @ [MolObj mol], smi @ [MolToSmiles mol], ids @ [rename_loop ids mol_name 1], flags @ [True])"
  by simp

lemma boxes_collapse: "(box_mols_of b, box_smi_of b, box_mol_ids_of b, box_flags_of b) = b"
  by (simp add: box_mols_of_def box_smi_of_def box_mol_ids_of_def box_flags_of_def)

text \<open>
  Claim C1, as the code has it. An entry that is not dropped gets an identifier that differs
  from the identifier of every other entry that is not dropped, and from the identifier of
  every earlier entry, dropped or not. A dropped entry keeps the identifier it came with, so
  a later dropped entry may repeat the identifier of a kept one.
\<close>

theorem kept_ids_unique:
  "i < length records \<and> j < length records \<and> i \<noteq> j
     \<and> box_mols_of (check_dupl_input records) ! i \<noteq> DuplicateStr
     \<and> (box_mols_of (check_dupl_input records) ! j \<noteq> DuplicateStr \<or> j < i)
   \<longrightarrow> box_mol_ids_of (check_dupl_input records) ! i \<noteq> box_mol_ids_of (check_dupl_input records) ! j"
proof (intro impI, elim conjE)
  let ?ids = "box_mol_ids_of (check_dupl_input records)"
  let ?mols = "box_mols_of (check_dupl_input records)"
  assume i: "i < length records" and j: "j < length records" and ne: "i \<noteq> j"
    and ki: "?mols ! i \<noteq> DuplicateStr" and kj: "?mols ! j \<noteq> DuplicateStr \<or> j < i"
  have len: "length ?ids = length records" by (simp add: check_dupl_input_lengths)
  have inv: "fresh_ids (check_dupl_input records)" by (rule fresh_ids_check)
  have earlier: "?ids ! q \<noteq> ?ids ! p" if "p < q" "q < length ?ids" "?mols ! q \<noteq> DuplicateStr" for p q
  proof -
    have "?ids ! q \<notin> set (take q ?ids)" using inv that by (simp add: fresh_ids_def)
    moreover have "?ids ! p \<in> set (take q ?ids)"
    proof -
      have "p < length (take q ?ids)" using that by simp
      then have "take q ?ids ! p \<in> set (take q ?ids)" by (rule nth_mem)
      then show ?thesis using that by simp
    qed
    ultimately show ?thesis by auto
  qed
  show "?ids ! i \<noteq> ?ids ! j"
  proof (cases "j < i")
    case True
    then show ?thesis using earlier [of j i] i ki len by simp
  next
    case False
    with ne have "i < j" by simp
    moreover from False kj have "?mols ! j \<noteq> DuplicateStr" by simp
    ultimately show ?thesis using earlier [of i j] j len by fastforce
  qed
qed

theorem kept_ids_unique_witness:
  "(1::nat) < length [(Mol ''C'' ([] :: unit conformer list), ''A''), (Mol ''CC'' [], ''A'')]
   \<and> (0::nat) < length [(Mol ''C'' ([] :: unit conformer list), ''A''), (Mol ''CC'' [], ''A'')]
   \<and> (1::nat) \<noteq> 0
   \<and> box_mols_of (check_dupl_input [(Mol ''C'' ([] :: unit conformer list), ''A''), (Mol ''CC'' [], ''A'')]) ! 1
        \<noteq> DuplicateStr
   \<and> (0::nat) < 1
   \<and> box_mol_ids_of (check_dupl_input [(Mol ''C'' ([] :: unit conformer list), ''A''), (Mol ''CC'' [], ''A'')]) ! 1
        \<noteq> box_mol_ids_of (check_dupl_input [(Mol ''C'' ([] :: unit conformer list), ''A''), (Mol ''CC'' [], ''A'')]) ! 0"
proof -
  let ?xs = "[(Mol ''C'' ([] :: unit conformer list), ''A''), (Mol ''CC'' [], ''A'')]"
  have b: "check_dupl_input ?xs =
      ([MolObj (Mol ''C'' []), MolObj (Mol ''CC'' [])], [''C'', ''CC''], [''A'', ''A#1''], [False, True])"
    by code_simp
  have h: "(1::nat) < length ?xs \<and> (0::nat) < length ?xs \<and> (1::nat) \<noteq> 0
     \<and> box_mols_of (check_dupl_input ?xs) ! 1 \<noteq> DuplicateStr
     \<and> (0::nat) < 1"
    unfolding b by (simp add: box_mols_of_def)
  with kept_ids_unique [of 1 ?xs 0] show ?thesis by blast
qed

text \<open>
  Claim C1 as stated fails: the same molecule listed twice under the same name. The first
  entry is kept, the second is dropped, and both carry the identifier \<open>A\<close> in the output.
\<close>

theorem dropped_entry_repeats_kept_id:
  "check_dupl_input [(Mol ''C'' ([] :: unit conformer list), ''A''), (Mol ''C'' [], ''A'')] =
     ([MolObj (Mol ''C'' []), DuplicateStr], [''C'', ''duplicate''], [''A'', ''A''], [False, True])
   \<and> box_mols_of (check_dupl_input [(Mol ''C'' ([] :: unit conformer list), ''A''), (Mol ''C'' [], ''A'')]) ! 0
        \<noteq> DuplicateStr
   \<and> box_mol_ids_of (check_dupl_input [(Mol ''C'' ([] :: unit conformer list), ''A''), (Mol ''C'' [], ''A'')]) ! 0
      = box_mol_ids_of (check_dupl_input [(Mol ''C'' ([] :: unit conformer list), ''A''), (Mol ''C'' [], ''A'')]) ! 1"
  by code_simp

text \<open>
  Claim C5. Two molecules with different structures, both named \<open>A\<close>, come out as \<open>A\<close> and
  \<open>A#1\<close>; three come out as \<open>A\<close>, \<open>A#1\<close>, \<open>A#2\<close>. In general an entry whose structure is
  new and whose identifier is already in the list of identifiers is stored under
  \<open>base#k\<close>, where \<open>base\<close> is its identifier up to the first \<open>#\<close> and \<open>k\<close> is the least number
  from 1 on for which \<open>base#k\<close> is not yet in the list; its flag is true.
\<close>

theorem collision_renaming:
  "(s1 \<noteq> s2 \<longrightarrow>
      check_dupl_input [(Mol s1 c1, ''A''), (Mol s2 c2, ''A'')] =
        ([MolObj (Mol s1 c1), MolObj (Mol s2 c2)], [s1, s2], [''A'', ''A#1''], [False, True]))
   \<and> (s1 \<noteq> s2 \<and> s1 \<noteq> s3 \<and> s2 \<noteq> s3 \<longrightarrow>
      check_dupl_input [(Mol s1 c1, ''A''), (Mol s2 c2, ''A''), (Mol s3 c3, ''A'')] =
        ([MolObj (Mol s1 c1), MolObj (Mol s2 c2), MolObj (Mol s3 c3)], [s1, s2, s3],
         [''A'', ''A#1'', ''A#2''], [False, True, True]))
   \<and> (MolToSmiles mol \<notin> set (box_smi_of (check_dupl_input xs))
        \<and> mol_name \<in> set (box_mol_ids_of (check_dupl_input xs)) \<longrightarrow>
      (\<exists>k\<ge>1.
         check_dupl_input (xs @ [(mol, mol_name)]) =
           (box_mols_of (check_dupl_input xs) @ [MolObj mol],
            box_smi_of (check_dupl_input xs) @ [MolToSmiles mol],
            box_mol_ids_of (check_dupl_input xs) @ [split_hash_0 mol_name @ ''#'' @ str_nat k],
            box_flags_of (check_dupl_input xs) @ [True])
         \<and> split_hash_0 mol_name @ ''#'' @ str_nat k \<notin> set (box_mol_ids_of (check_dupl_input xs))
         \<and> (\<forall>j. 1 \<le> j \<and> j < k \<longrightarrow>
               split_hash_0 mol_name @ ''#'' @ str_nat j \<in> set (box_mol_ids_of (check_dupl_input xs)))))"
proof (intro conjI impI)
  assume "s1 \<noteq> s2"
  then show "check_dupl_input [(Mol s1 c1, ''A''), (Mol s2 c2, ''A'')] =
        ([MolObj (Mol s1 c1), MolObj (Mol s2 c2)], [s1, s2], [''A'', ''A#1''], [False, True])"
    by (auto simp add: check_dupl_input_def rename_A_1)
next
  assume "s1 \<noteq> s2 \<and> s1 \<noteq> s3 \<and> s2 \<noteq> s3"
  then show "check_dupl_input [(Mol s1 c1, ''A''), (Mol s2 c2, ''A''), (Mol s3 c3, ''A'')] =
        ([MolObj (Mol s1 c1), MolObj (Mol s2 c2), MolObj (Mol s3 c3)], [s1, s2, s3],
         [''A'', ''A#1'', ''A#2''], [False, True, True])"
    by (auto simp add: check_dupl_input_def rename_A_1 rename_A_2)
next
  let ?b = "check_dupl_input xs"
  let ?N = "\<lambda>k. split_hash_0 mol_name @ ''#'' @ str_nat k"
  assume h: "MolToSmiles mol \<notin> set (box_smi_of ?b) \<and> mol_name \<in> set (box_mol_ids_of ?b)"
  then obtain k where k: "1 \<le> k" "rename_loop (box_mol_ids_of ?b) mol_name 1 = ?N k"
    "?N k \<notin> set (box_mol_ids_of ?b)"
    "\<forall>j. 1 \<le> j \<and> j < k \<longrightarrow> ?N j \<in> set (box_mol_ids_of ?b)"
    using rename_loop_least [of mol_name "box_mol_ids_of ?b" 1] by blast
  have "check_dupl_input (xs @ [(mol, mol_name)]) =
      dedup_step (mol, mol_name) (box_mols_of ?b, box_smi_of ?b, box_mol_ids_of ?b, box_flags_of ?b)"
    by (simp only: check_dupl_input_snoc boxes_collapse)
  also have "\<dots> = (box_mols_of ?b @ [MolObj mol], box_smi_of ?b @ [MolToSmiles mol],
      box_mol_ids_of ?b @ [?N k], box_flags_of ?b @ [True])"
    using h k(2) dedup_step_collision [of mol "box_smi_of ?b" mol_name "box_mol_ids_of ?b"] by simp
  finally show "\<exists>k\<ge>1.
         check_dupl_input (xs @ [(mol, mol_name)]) =
           (box_mols_of ?b @ [MolObj mol], box_smi_of ?b @ [MolToSmiles mol],
            box_mol_ids_of ?b @ [?N k], box_flags_of ?b @ [True])
         \<and> ?N k \<notin> set (box_mol_ids_of ?b)
         \<and> (\<forall>j. 1 \<le> j \<and> j < k \<longrightarrow> ?N j \<in> set (box_mol_ids_of ?b))"
    using k by blast
qed

theorem collision_renaming_witness:
  "''C'' \<noteq> ''CC'' \<and> ''C'' \<noteq> ''CCC'' \<and> ''CC'' \<noteq> ''CCC''
   \<and> MolToSmiles (Mol ''CN'' ([] :: unit conformer list))
        \<notin> set (box_smi_of (check_dupl_input [(Mol ''C'' ([] :: unit conformer list), ''A#7''), (Mol ''CC'' [], ''A#1'')]))
   \<and> ''A#7'' \<in> set (box_mol_ids_of (check_dupl_input
          [(Mol ''C'' ([] :: unit conformer list), ''A#7''), (Mol ''CC'' [], ''A#1'')]))
   \<and> check_dupl_input [(Mol ''C'' ([] :: unit conformer list), ''A''), (Mol ''CC'' [], ''A'')] =
        ([MolObj (Mol ''C'' []), MolObj (Mol ''CC'' [])], [''C'', ''CC''], [''A'', ''A#1''], [False, True])
   \<and> check_dupl_input [(Mol ''C'' ([] :: unit conformer list), ''A''), (Mol ''CC'' [], ''A''),
          (Mol ''CCC'' [], ''A'')] =
        ([MolObj (Mol ''C'' []), MolObj (Mol ''CC'' []), MolObj (Mol ''CCC'' [])],
         [''C'', ''CC'', ''CCC''], [''A'', ''A#1'', ''A#2''], [False, True, True])
   \<and> (\<exists>k\<ge>1. box_mol_ids_of (check_dupl_input
          [(Mol ''C'' ([] :: unit conformer list), ''A#7''), (Mol ''CC'' [], ''A#1''), (Mol ''CN'' [], ''A#7'')])
          = [''A#7'', ''A#1''] @ [''A'' @ ''#'' @ str_nat k]
          \<and> ''A'' @ ''#'' @ str_nat k \<notin> {''A#7'', ''A#1''})"
proof -
  let ?xs = "[(Mol ''C'' ([] :: unit conformer list), ''A#7''), (Mol ''CC'' [], ''A#1'')]"
  have h1: "''C'' \<noteq> ''CC'' \<and> ''C'' \<noteq> ''CCC'' \<and> ''CC'' \<noteq> ''CCC''" by simp
  have b: "check_dupl_input ?xs =
      ([MolObj (Mol ''C'' []), MolObj (Mol ''CC'' [])], [''C'', ''CC''], [''A#7'', ''A#1''], [False, False])"
    by code_simp
  have h2: "MolToSmiles (Mol ''CN'' ([] :: unit conformer list)) \<notin> set (box_smi_of (check_dupl_input ?xs))
      \<and> ''A#7'' \<in> set (box_mol_ids_of (check_dupl_input ?xs))"
    unfolding b by (simp add: box_smi_of_def box_mol_ids_of_def)
  have sp: "split_hash_0 ''A#7'' = ''A''" by (simp add: split_hash_0_def)
  note inst = collision_renaming [of "''C''" "''CC''" "[]" "[]" "''CCC''" "[]"
      "Mol ''CN'' ([] :: unit conformer list)" ?xs "''A#7''"]
  from inst h1 have c1: "check_dupl_input [(Mol ''C'' ([] :: unit conformer list), ''A''), (Mol ''CC'' [], ''A'')] =
        ([MolObj (Mol ''C'' []), MolObj (Mol ''CC'' [])], [''C'', ''CC''], [''A'', ''A#1''], [False, True])"
    by blast
  from inst h1 have c2: "check_dupl_input [(Mol ''C'' ([] :: unit conformer list), ''A''), (Mol ''CC'' [], ''A''),
          (Mol ''CCC'' [], ''A'')] =
        ([MolObj (Mol ''C'' []), MolObj (Mol ''CC'' []), MolObj (Mol ''CCC'' [])],
         [''C'', ''CC'', ''CCC''], [''A'', ''A#1'', ''A#2''], [False, True, True])"
    by blast
  from inst h2 have "\<exists>k\<ge>1.
         check_dupl_input (?xs @ [(Mol ''CN'' [], ''A#7'')]) =
           (box_mols_of (check_dupl_input ?xs) @ [MolObj (Mol ''CN'' [])],
            box_smi_of (check_dupl_input ?xs) @ [MolToSmiles (Mol ''CN'' ([] :: unit conformer list))],
            box_mol_ids_of (check_dupl_input ?xs) @ [split_hash_0 ''A#7'' @ ''#'' @ str_nat k],
            box_flags_of (check_dupl_input ?xs) @ [True])
         \<and> split_hash_0 ''A#7'' @ ''#'' @ str_nat k \<notin> set (box_mol_ids_of (check_dupl_input ?xs))
         \<and> (\<forall>j. 1 \<le> j \<and> j < k \<longrightarrow>
               split_hash_0 ''A#7'' @ ''#'' @ str_nat j \<in> set (box_mol_ids_of (check_dupl_input ?xs)))"
    by blast
  then have c3: "\<exists>k\<ge>1. box_mol_ids_of (check_dupl_input
          [(Mol ''C'' ([] :: unit conformer list), ''A#7''), (Mol ''CC'' [], ''A#1''), (Mol ''CN'' [], ''A#7'')])
          = [''A#7'', ''A#1''] @ [''A'' @ ''#'' @ str_nat k]
          \<and> ''A'' @ ''#'' @ str_nat k \<notin> {''A#7'', ''A#1''}"
    unfolding b sp by (auto simp: box_smi_of_def box_mol_ids_of_def box_mols_of_def box_flags_of_def)
  from h1 h2 c1 c2 c3 show ?thesis by blast
qed

text \<open>
  What the dropped branch stores (source lines 64 to 67): the sentinel in \<open>box_mols\<close>, and in
  \<open>box_mol_ids\<close> the identifier the entry came with. So the output identifier of a dropped
  entry is the identifier of its input record.
\<close>

lemma dedup_step_last:
  assumes "length mols = length ids"
  shows "\<exists>m n. box_mols_of (dedup_step (mol, mol_name) (mols, smi, ids, flags)) = mols @ [m]
            \<and> box_mol_ids_of (dedup_step (mol, mol_name) (mols, smi, ids, flags)) = ids @ [n]
            \<and> (m = DuplicateStr \<longrightarrow> n = mol_name)"
  by (simp add: box_mols_of_def box_mol_ids_of_def)

lemma dropped_keeps_input_id:
  "i < length xs \<Longrightarrow> box_mols_of (check_dupl_input xs) ! i = DuplicateStr \<Longrightarrow>
   box_mol_ids_of (check_dupl_input xs) ! i = snd (xs ! i)"
proof (induction xs rule: rev_induct)
  case Nil
  then show ?case by simp
next
  case (snoc x xs)
  let ?b = "check_dupl_input xs"
  obtain mol mol_name where x: "x = (mol, mol_name)" by (cases x)
  have lm: "length (box_mols_of ?b) = length xs" and li: "length (box_mol_ids_of ?b) = length xs"
    by (simp_all add: check_dupl_input_lengths)
  have "check_dupl_input (xs @ [x]) =
      dedup_step (mol, mol_name) (box_mols_of ?b, box_smi_of ?b, box_mol_ids_of ?b, box_flags_of ?b)"
    unfolding x by (simp only: check_dupl_input_snoc boxes_collapse)
  moreover have "length (box_mols_of ?b) = length (box_mol_ids_of ?b)" using lm li by simp
  ultimately obtain m n where
    mols: "box_mols_of (check_dupl_input (xs @ [x])) = box_mols_of ?b @ [m]"
    and ids: "box_mol_ids_of (check_dupl_input (xs @ [x])) = box_mol_ids_of ?b @ [n]"
    and last: "m = DuplicateStr \<longrightarrow> n = mol_name"
    using dedup_step_last [of "box_mols_of ?b" "box_mol_ids_of ?b" mol mol_name "box_smi_of ?b" "box_flags_of ?b"]
    by auto
  show ?case
  proof (cases "i < length xs")
    case True
    from snoc.prems(2) have "box_mols_of ?b ! i = DuplicateStr"
      unfolding mols using True lm by (simp add: nth_append)
    with True have "box_mol_ids_of ?b ! i = snd (xs ! i)" by (rule snoc.IH)
    then show ?thesis unfolding ids using True li by (simp add: nth_append)
  next
    case False
    with snoc.prems(1) have i: "i = length xs" by simp
    from snoc.prems(2) have "m = DuplicateStr"
      unfolding mols using i lm by (simp add: nth_append)
    with last have "n = mol_name" by simp
    then show ?thesis unfolding ids using i li x by (simp add: nth_append)
  qed
qed

text \<open>
  Claim C10. An entry that is dropped as a structural duplicate leaves the identifier of its
  input record in the list of identifiers, at its own position. A later entry with a new
  structure and that identifier therefore takes the renaming branch: it is stored under the
  identifier the renaming loop returns, which is not in the list and so differs from its
  own, and its flag is true. The renaming reads the list of identifiers only, so the outcome
  is the same whatever the other three lists hold, in particular whether the entry that
  carries the identifier was kept or dropped.
\<close>

theorem dropped_id_stays_reserved:
  "i < length xs \<and> box_mols_of (check_dupl_input xs) ! i = DuplicateStr
     \<and> snd (xs ! i) = mol_name
     \<and> MolToSmiles mol \<notin> set (box_smi_of (check_dupl_input xs)) \<longrightarrow>
   box_mol_ids_of (check_dupl_input xs) ! i = mol_name
   \<and> mol_name \<in> set (box_mol_ids_of (check_dupl_input xs))
   \<and> check_dupl_input (xs @ [(mol, mol_name)]) =
     (box_mols_of (check_dupl_input xs) @ [MolObj mol],
      box_smi_of (check_dupl_input xs) @ [MolToSmiles mol],
      box_mol_ids_of (check_dupl_input xs) @ [rename_loop (box_mol_ids_of (check_dupl_input xs)) mol_name 1],
      box_flags_of (check_dupl_input xs) @ [True])
   \<and> rename_loop (box_mol_ids_of (check_dupl_input xs)) mol_name 1 \<noteq> mol_name
   \<and> rename_loop (box_mol_ids_of (check_dupl_input xs)) mol_name 1
        \<notin> set (box_mol_ids_of (check_dupl_input xs))
   \<and> (\<forall>mols' smi' flags'. MolToSmiles mol \<notin> set smi' \<longrightarrow>
        dedup_step (mol, mol_name) (mols', smi', box_mol_ids_of (check_dupl_input xs), flags') =
          (mols' @ [MolObj mol], smi' @ [MolToSmiles mol],
           box_mol_ids_of (check_dupl_input xs) @ [rename_loop (box_mol_ids_of (check_dupl_input xs)) mol_name 1],
           flags' @ [True]))"
proof (intro impI, elim conjE)
  let ?b = "check_dupl_input xs"
  let ?ids = "box_mol_ids_of ?b"
  assume i: "i < length xs" and dropped: "box_mols_of ?b ! i = DuplicateStr"
    and input: "snd (xs ! i) = mol_name"
    and smi: "MolToSmiles mol \<notin> set (box_smi_of ?b)"
  have "?ids ! i = snd (xs ! i)" using i dropped by (rule dropped_keeps_input_id)
  then have name: "?ids ! i = mol_name" using input by simp
  have "i < length ?ids" using i by (simp add: check_dupl_input_lengths)
  then have "?ids ! i \<in> set ?ids" by (rule nth_mem)
  then have mem: "mol_name \<in> set ?ids" using name by simp
  have "check_dupl_input (xs @ [(mol, mol_name)]) =
      dedup_step (mol, mol_name) (box_mols_of ?b, box_smi_of ?b, ?ids, box_flags_of ?b)"
    by (simp only: check_dupl_input_snoc boxes_collapse)
  then have 1: "check_dupl_input (xs @ [(mol, mol_name)]) =
     (box_mols_of ?b @ [MolObj mol], box_smi_of ?b @ [MolToSmiles mol],
      ?ids @ [rename_loop ?ids mol_name 1], box_flags_of ?b @ [True])"
    using dedup_step_collision [OF smi mem] by simp
  have 2: "rename_loop ?ids mol_name 1 \<notin> set ?ids" by (rule rename_loop_fresh)
  then have 3: "rename_loop ?ids mol_name 1 \<noteq> mol_name" using mem by auto
  have 4: "\<forall>mols' smi' flags'. MolToSmiles mol \<notin> set smi' \<longrightarrow>
        dedup_step (mol, mol_name) (mols', smi', ?ids, flags') =
          (mols' @ [MolObj mol], smi' @ [MolToSmiles mol],
           ?ids @ [rename_loop ?ids mol_name 1], flags' @ [True])"
    using mem by (simp add: dedup_step_collision)
  from name mem 1 2 3 4 show "?ids ! i = mol_name \<and> mol_name \<in> set ?ids
   \<and> check_dupl_input (xs @ [(mol, mol_name)]) =
     (box_mols_of ?b @ [MolObj mol], box_smi_of ?b @ [MolToSmiles mol],
      ?ids @ [rename_loop ?ids mol_name 1], box_flags_of ?b @ [True])
   \<and> rename_loop ?ids mol_name 1 \<noteq> mol_name
   \<and> rename_loop ?ids mol_name 1 \<notin> set ?ids
   \<and> (\<forall>mols' smi' flags'. MolToSmiles mol \<notin> set smi' \<longrightarrow>
        dedup_step (mol, mol_name) (mols', smi', ?ids, flags') =
          (mols' @ [MolObj mol], smi' @ [MolToSmiles mol],
           ?ids @ [rename_loop ?ids mol_name 1], flags' @ [True]))"
    by blast
qed

theorem dropped_id_stays_reserved_witness:
  "(1::nat) < length [(Mol ''C'' ([] :: unit conformer list), ''A''), (Mol ''C'' [], ''B'')]
   \<and> box_mols_of (check_dupl_input [(Mol ''C'' ([] :: unit conformer list), ''A''), (Mol ''C'' [], ''B'')]) ! 1
        = DuplicateStr
   \<and> snd ([(Mol ''C'' ([] :: unit conformer list), ''A''), (Mol ''C'' [], ''B'')] ! 1) = ''B''
   \<and> MolToSmiles (Mol ''CC'' ([] :: unit conformer list))
        \<notin> set (box_smi_of (check_dupl_input [(Mol ''C'' ([] :: unit conformer list), ''A''), (Mol ''C'' [], ''B'')]))
   \<and> box_mol_ids_of (check_dupl_input [(Mol ''C'' ([] :: unit conformer list), ''A''), (Mol ''C'' [], ''B'')]) ! 1
        = ''B''
   \<and> check_dupl_input [(Mol ''C'' ([] :: unit conformer list), ''A''), (Mol ''C'' [], ''B''), (Mol ''CC'' [], ''B'')]
        = ([MolObj (Mol ''C'' []), DuplicateStr, MolObj (Mol ''CC'' [])],
           [''C'', ''duplicate'', ''CC''], [''A'', ''B'', ''B#1''], [False, True, True])"
proof -
  let ?xs = "[(Mol ''C'' ([] :: unit conformer list), ''A''), (Mol ''C'' [], ''B'')]"
  have b: "check_dupl_input ?xs = ([MolObj (Mol ''C'' []), DuplicateStr], [''C'', ''duplicate''], [''A'', ''B''], [False, True])"
    by code_simp
  have r: "rename_loop [''A'', ''B''] ''B'' (Suc 0) = ''B#1''" by code_simp
  have h: "(1::nat) < length ?xs \<and> box_mols_of (check_dupl_input ?xs) ! 1 = DuplicateStr
     \<and> snd (?xs ! 1) = ''B''
     \<and> MolToSmiles (Mol ''CC'' ([] :: unit conformer list)) \<notin> set (box_smi_of (check_dupl_input ?xs))"
    unfolding b by (simp add: box_smi_of_def box_mols_of_def)
  note inst = dropped_id_stays_reserved [of 1 ?xs "''B''" "Mol ''CC'' []"]
  from inst h have kept: "box_mol_ids_of (check_dupl_input ?xs) ! 1 = ''B''"
    by blast
  from inst h
  have "check_dupl_input (?xs @ [(Mol ''CC'' [], ''B'')]) =
     (box_mols_of (check_dupl_input ?xs) @ [MolObj (Mol ''CC'' [])],
      box_smi_of (check_dupl_input ?xs) @ [MolToSmiles (Mol ''CC'' ([] :: unit conformer list))],
      box_mol_ids_of (check_dupl_input ?xs) @ [rename_loop (box_mol_ids_of (check_dupl_input ?xs)) ''B'' 1],
      box_flags_of (check_dupl_input ?xs) @ [True])"
    by blast
  then have c: "check_dupl_input [(Mol ''C'' ([] :: unit conformer list), ''A''), (Mol ''C'' [], ''B''), (Mol ''CC'' [], ''B'')]
        = ([MolObj (Mol ''C'' []), DuplicateStr, MolObj (Mol ''CC'' [])],
           [''C'', ''duplicate'', ''CC''], [''A'', ''B'', ''B#1''], [False, True, True])"
    unfolding b by (simp add: box_smi_of_def box_mol_ids_of_def box_mols_of_def box_flags_of_def r)
  from h kept c show ?thesis by blast
qed

subsection \<open>Properties of the Conformer Pruner\<close>

lemma GetConformer_conf_id:
  "wf_mol mol \<Longrightarrow> conf \<in> set (GetConformers mol) \<Longrightarrow> GetConformer mol (conf_id conf) = Some conf"
proof -
  have "distinct (map conf_id confs) \<Longrightarrow> conf \<in> set confs \<Longrightarrow>
      find (\<lambda>c. conf_id c = conf_id conf) confs = Some conf" for confs
    by (induction confs) (auto simp: image_iff)
  then show "wf_mol mol \<Longrightarrow> conf \<in> set (GetConformers mol) \<Longrightarrow> GetConformer mol (conf_id conf) = Some conf"
    by (simp add: wf_mol_def GetConformer_def)
qed

lemma conf_energies_Some:
  "\<forall>c \<in> set confs. ff (geom c) \<noteq> None \<Longrightarrow>
   conf_energies ff confs = Some (map (\<lambda>c. (c, energy_val ff (geom c))) confs)"
  by (induction confs) (auto simp: energy_val_def)

lemma conf_energies_None:
  "c \<in> set confs \<Longrightarrow> ff (geom c) = None \<Longrightarrow> conf_energies ff confs = None"
  by (induction confs) (auto split: option.splits)

lemma insort_key_pairs:
  "insort_key snd (c, f c) (map (\<lambda>c. (c, f c)) cs) = map (\<lambda>c. (c, f c)) (insort_key f c cs)"
  by (induction cs) auto

lemma sort_key_pairs:
  "sort_key snd (map (\<lambda>c. (c, f c)) cs) = map (\<lambda>c. (c, f c)) (sort_key f cs)"
  by (induction cs) (auto simp: insort_key_pairs)

lemma insort_key_map: "insort_key k (h x) (map h xs) = map h (insort_key (\<lambda>x. k (h x)) x xs)"
  by (induction xs) auto

lemma sort_key_map: "sort_key k (map h xs) = map h (sort_key (\<lambda>x. k (h x)) xs)"
  by (induction xs) (auto simp: insort_key_map)

lemma kept_by_energy_pairs:
  "kept_by_energy (c0, f c0) (map (\<lambda>c. (c, f c)) T) (Some d) = c0 # filter (\<lambda>c. f c - f c0 \<le> d) T"
  by (simp add: kept_by_energy_def filter_map comp_def)

lemma removed_by_energy_pairs:
  "removed_by_energy (c0, f c0) (map (\<lambda>c. (c, f c)) T) (Some d) =
     map conf_id (filter (\<lambda>c. \<not> f c - f c0 \<le> d) T)"
  by (simp add: removed_by_energy_def filter_map comp_def)

lemma combinations2_filter:
  "combinations2 (filter P xs) = filter (\<lambda>(a, b). P a \<and> P b) (combinations2 xs)"
proof (induction xs)
  case Nil
  show ?case by simp
next
  case (Cons x xs)
  have "filter (\<lambda>(a, b). P a \<and> P b) (map (Pair x) xs) = (if P x then map (Pair x) (filter P xs) else [])"
    by (induction xs) auto
  with Cons show ?case by simp
qed

lemma combinations2_map: "combinations2 (map h xs) = map (\<lambda>(a, b). (h a, h b)) (combinations2 xs)"
  by (induction xs) auto

lemma combinations2_mem: "(a, b) \<in> set (combinations2 xs) \<Longrightarrow> a \<in> set xs \<and> b \<in> set (tl xs)"
proof (induction xs)
  case Nil
  then show ?case by simp
next
  case (Cons x xs)
  then show ?case by (cases xs) auto
qed

lemma rms_list_of_filter:
  "filter (\<lambda>i. P (fst i) \<and> P (fst (snd i))) (rms_list_of G K) = rms_list_of G (filter P K)"
  by (simp add: rms_list_of_def combinations2_filter filter_map comp_def case_prod_unfold)

lemma rms_list_of_mem:
  "item \<in> set (rms_list_of G K) \<Longrightarrow> fst item \<in> set K \<and> fst (snd item) \<in> set (tl K)"
  by (auto simp: rms_list_of_def dest: combinations2_mem)

lemma rms_list_of_values:
  "map (\<lambda>item. snd (snd item)) (rms_list_of G K) = map (\<lambda>(g1, g2). G g1 g2) (combinations2 (map geom K))"
  by (simp add: rms_list_of_def combinations2_map comp_def case_prod_unfold)

lemma find_None_iff2: "find P xs = None \<longleftrightarrow> (\<forall>x \<in> set xs. \<not> P x)"
  by (induction xs) auto

lemma rms_loop_nil:
  "\<forall>item \<in> set L. \<not> snd (snd item) < r \<Longrightarrow> rms_loop r L rem = rem"
  by (subst rms_loop.simps) (simp add: find_None_iff2 [THEN iffD2])

lemma RemoveConformer_filter:
  "distinct (map conf_id cs) \<Longrightarrow> RemoveConformer x cs = filter (\<lambda>c. conf_id c \<noteq> x) cs"
proof (induction cs)
  case Nil
  show ?case by simp
next
  case (Cons c cs)
  show ?case
  proof (cases "conf_id c = x")
    case True
    then have "\<forall>c' \<in> set cs. conf_id c' \<noteq> x" using Cons.prems by (auto simp: image_iff)
    then have "filter (\<lambda>c. conf_id c \<noteq> x) cs = cs" by (simp add: filter_id_conv)
    with True show ?thesis by simp
  next
    case False
    then show ?thesis using Cons by simp
  qed
qed

lemma distinct_ids_filter: "distinct (map conf_id cs) \<Longrightarrow> distinct (map conf_id (filter P cs))"
  by (simp add: distinct_map_filter)

lemma fold_RemoveConformer:
  "distinct (map conf_id cs) \<Longrightarrow>
   fold RemoveConformer xs cs = filter (\<lambda>c. conf_id c \<notin> set xs) cs"
proof (induction xs arbitrary: cs)
  case Nil
  show ?case by simp
next
  case (Cons x xs)
  have "fold RemoveConformer (x # xs) cs = fold RemoveConformer xs (filter (\<lambda>c. conf_id c \<noteq> x) cs)"
    using Cons.prems by (simp add: RemoveConformer_filter)
  also have "\<dots> = filter (\<lambda>c. conf_id c \<notin> set xs) (filter (\<lambda>c. conf_id c \<noteq> x) cs)"
    using Cons.prems by (intro Cons.IH distinct_ids_filter)
  also have "\<dots> = filter (\<lambda>c. conf_id c \<notin> set (x # xs)) cs"
    by (auto intro: filter_cong)
  finally show ?case .
qed

lemma conf_id_reindex: "map conf_id (reindex confs) = [0..<length confs]"
  by (simp add: reindex_def comp_def case_prod_unfold)

lemma geom_reindex: "map geom (reindex confs) = map geom confs"
proof -
  have "map geom (reindex confs) = map (geom \<circ> snd) (enumerate 0 confs)"
    by (simp add: reindex_def comp_def case_prod_unfold)
  also have "\<dots> = map geom (map snd (enumerate 0 confs))" by (simp only: map_map)
  also have "\<dots> = map geom confs" by (simp only: map_snd_enumerate)
  finally show ?thesis .
qed

lemma length_reindex: "length (reindex confs) = length confs"
  by (simp add: reindex_def)

lemma nth_reindex: "k < length confs \<Longrightarrow> reindex confs ! k = Conformer k (geom (confs ! k))"
  by (simp add: reindex_def nth_enumerate_eq)

lemma reindex_eqI: "map geom xs = map geom ys \<Longrightarrow> reindex xs = reindex ys"
proof -
  assume eq: "map geom xs = map geom ys"
  then have len: "length xs = length ys" by (rule map_eq_imp_length_eq)
  have "map conf_id (reindex xs) = map conf_id (reindex ys)" by (simp add: conf_id_reindex len)
  moreover have "map geom (reindex xs) = map geom (reindex ys)" by (simp add: geom_reindex eq)
  ultimately show ?thesis
    by (auto simp: list_eq_iff_nth_eq conformer.expand)
qed

lemma reindex_reindex: "reindex (reindex confs) = reindex confs"
  by (rule reindex_eqI) (simp add: geom_reindex)

lemma rms_loop_spec:
  "distinct (map conf_id K) \<Longrightarrow>
   \<exists>R. rms_loop r (rms_list_of G K) rem = rem @ R
      \<and> set R \<subseteq> conf_id ` set (tl K)
      \<and> (\<forall>item \<in> set (rms_list_of G (filter (\<lambda>c. conf_id c \<notin> set R) K)). \<not> snd (snd item) < r)"
proof (induction "length K" arbitrary: K rem rule: less_induct)
  case less
  let ?L = "rms_list_of G K"
  show ?case
  proof (cases "find (\<lambda>item. snd (snd item) < r) ?L")
    case None
    then have "rms_loop r ?L rem = rem @ []"
      by (subst rms_loop.simps) simp
    moreover from None have "\<forall>item \<in> set ?L. \<not> snd (snd item) < r"
      by (simp add: find_None_iff2)
    ultimately show ?thesis by (intro exI [of _ "[]"]) simp
  next
    case (Some item)
    define x where "x = conf_id (fst (snd item))"
    define K1 where "K1 = filter (\<lambda>c. conf_id c \<noteq> x) K"
    from Some have item: "item \<in> set ?L" by (simp add: find_Some_mem)
    then have b: "fst (snd item) \<in> set (tl K)" by (simp add: rms_list_of_mem)
    then obtain k0 K' where K: "K = k0 # K'" by (cases K) auto
    with b have bK': "fst (snd item) \<in> set K'" by simp
    have k0: "conf_id k0 \<noteq> x"
      using less.prems bK' unfolding K x_def by (auto simp: image_iff)
    have K1: "K1 = k0 # filter (\<lambda>c. conf_id c \<noteq> x) K'"
      using k0 by (simp add: K1_def K)
    have "fst (snd item) \<in> set K" using bK' K by simp
    then have len: "length K1 < length K"
      unfolding K1_def by (intro length_filter_less [of "fst (snd item)"]) (auto simp: x_def)
    have dist: "distinct (map conf_id K1)"
      unfolding K1_def using less.prems by (rule distinct_ids_filter)
    have step: "rms_loop r ?L rem = rms_loop r (rms_list_of G K1) (rem @ [x])"
      using Some
      by (subst rms_loop.simps)
         (simp add: K1_def x_def rms_list_of_filter [of "\<lambda>c. conf_id c \<noteq> conf_id (fst (snd item))", symmetric])
    from less.hyps [OF len dist, of "rem @ [x]"]
    obtain R1 where R1: "rms_loop r (rms_list_of G K1) (rem @ [x]) = (rem @ [x]) @ R1"
      "set R1 \<subseteq> conf_id ` set (tl K1)"
      "\<forall>item \<in> set (rms_list_of G (filter (\<lambda>c. conf_id c \<notin> set R1) K1)). \<not> snd (snd item) < r"
      by blast
    have 1: "rms_loop r ?L rem = rem @ (x # R1)" using step R1(1) by simp
    have 2: "set (x # R1) \<subseteq> conf_id ` set (tl K)"
      using R1(2) bK' unfolding K1 K x_def by auto
    have "filter (\<lambda>c. conf_id c \<notin> set (x # R1)) K = filter (\<lambda>c. conf_id c \<notin> set R1) K1"
      unfolding K1_def by (auto intro: filter_cong)
    with R1(3) have 3: "\<forall>item \<in> set (rms_list_of G (filter (\<lambda>c. conf_id c \<notin> set (x # R1)) K)). \<not> snd (snd item) < r"
      by simp
    from 1 2 3 show ?thesis by blast
  qed
qed

lemma remove_confs_char:
  assumes wf: "wf_mol mol" and en: "\<forall>c \<in> set (GetConformers mol). ff (geom c) \<noteq> None"
  shows "remove_confs ff G mol energy rms =
    (Mol (MolToSmiles mol)
       (reindex (filter (\<lambda>c. conf_id c \<notin> set (marked_ids ff G (GetConformers mol) energy rms))
          (GetConformers mol))), [])"
proof -
  let ?cs = "GetConformers mol"
  let ?f = "\<lambda>c. energy_val ff (geom c)"
  have ce: "conf_energies ff ?cs = Some (map (\<lambda>c. (c, ?f c)) ?cs)"
    using en by (rule conf_energies_Some)
  have so: "sort_key snd (map (\<lambda>c. (c, ?f c)) ?cs) = map (\<lambda>c. (c, ?f c)) (sort_key ?f ?cs)"
    by (rule sort_key_pairs)
  have dist: "distinct (map conf_id ?cs)" using wf by (simp add: wf_mol_def)
  show ?thesis
  proof (cases "sort_key ?f ?cs")
    case Nil
    then have "length (sort_key ?f ?cs) = 0" by simp
    then have cs: "?cs = []" by simp
    then have "mol = Mol (MolToSmiles mol) []" by (cases mol) simp
    then show ?thesis
      using Nil cs by (simp add: remove_confs_def ce so marked_ids_def reindex_def)
  next
    case (Cons c0 T)
    then show ?thesis
      by (simp add: remove_confs_def ce so marked_ids_def fold_RemoveConformer [OF dist])
  qed
qed

lemma reindex_ids: "map conf_id (GetConformers (Mol s (reindex cs))) = [0..<length (GetConformers (Mol s (reindex cs)))]"
  by (simp add: conf_id_reindex length_reindex)


lemma conf_energies_SomeD:
  assumes "conf_energies ff cs = Some e"
  shows "\<forall>c \<in> set cs. ff (geom c) \<noteq> None"
    and "e = map (\<lambda>c. (c, energy_val ff (geom c))) cs"
proof -
  show all: "\<forall>c \<in> set cs. ff (geom c) \<noteq> None"
  proof (intro ballI notI)
    fix c assume "c \<in> set cs" "ff (geom c) = None"
    then have "conf_energies ff cs = None" by (rule conf_energies_None)
    with assms show False by simp
  qed
  from conf_energies_Some [OF all] assms
  show "e = map (\<lambda>c. (c, energy_val ff (geom c))) cs" by simp
qed

lemma energy_val_Some: "ff g \<noteq> None \<Longrightarrow> ff g = Some (energy_val ff g)"
  by (auto simp: energy_val_def)

lemma sorted_confs_facts:
  assumes "sort_key f cs = c0 # T"
  shows "set cs = insert c0 (set T)" and "\<forall>c \<in> set cs. f c0 \<le> f c"
    and "distinct (map g cs) \<Longrightarrow> g c0 \<notin> g ` set T"
    and "distinct (map g cs) \<Longrightarrow> distinct (map g (c0 # T))"
proof -
  have "set (sort_key f cs) = set cs" by simp
  with assms show s: "set cs = insert c0 (set T)" by simp
  have "sorted (map f (sort_key f cs))" by (rule sorted_sort_key)
  with assms have "\<forall>c \<in> set T. f c0 \<le> f c" by simp
  with s show "\<forall>c \<in> set cs. f c0 \<le> f c" by simp
  have d: "distinct (map g (c0 # T))" if "distinct (map g cs)"
  proof -
    have "distinct (map g (sort_key f cs)) = distinct (map g cs)"
      by (simp add: distinct_map)
    with that assms show ?thesis by simp
  qed
  then show "distinct (map g cs) \<Longrightarrow> distinct (map g (c0 # T))" .
  from d show "distinct (map g cs) \<Longrightarrow> g c0 \<notin> g ` set T" by simp
qed

lemma removed_by_energy_subset:
  "set (removed_by_energy e0 (map (\<lambda>c. (c, f c)) T) energy) \<subseteq> conf_id ` set T"
  by (cases energy) (auto simp: removed_by_energy_def)

lemma kept_by_energy_tl:
  "\<exists>K'. kept_by_energy (c0, x) (map (\<lambda>c. (c, f c)) T) energy = c0 # K' \<and> set K' \<subseteq> set T"
  by (cases energy) (auto simp: kept_by_energy_def)

lemma kept_by_energy_distinct:
  assumes "distinct (map conf_id (c0 # T))"
  shows "distinct (map conf_id (kept_by_energy (c0, x) (map (\<lambda>c. (c, f c)) T) energy))"
proof (cases energy)
  case None
  then show ?thesis by (simp add: kept_by_energy_def)
next
  case (Some d)
  have K: "kept_by_energy (c0, x) (map (\<lambda>c. (c, f c)) T) (Some d) = c0 # filter (\<lambda>c. f c - x \<le> d) T"
    by (simp add: kept_by_energy_def filter_map comp_def)
  have "distinct (map conf_id (filter (\<lambda>c. f c - x \<le> d) T))"
    using assms by (simp add: distinct_map_filter)
  moreover have "conf_id c0 \<notin> conf_id ` set (filter (\<lambda>c. f c - x \<le> d) T)"
    using assms by auto
  ultimately show ?thesis using Some K by simp
qed

lemma final_remove_ids_subset:
  assumes "distinct (map conf_id (c0 # T))"
  shows "set (final_remove_ids G (c0, x) (map (\<lambda>c. (c, f c)) T) energy rms) \<subseteq> conf_id ` set T"
proof (cases rms)
  case None
  then show ?thesis by (simp add: final_remove_ids_def removed_by_energy_subset)
next
  case (Some r)
  let ?K = "kept_by_energy (c0, x) (map (\<lambda>c. (c, f c)) T) energy"
  let ?rem = "removed_by_energy (c0, x) (map (\<lambda>c. (c, f c)) T) energy"
  obtain K' where K': "?K = c0 # K'" "set K' \<subseteq> set T"
    using kept_by_energy_tl by blast
  have "distinct (map conf_id ?K)" using assms by (rule kept_by_energy_distinct)
  from rms_loop_spec [OF this, of r G ?rem]
  obtain R where R: "rms_loop r (rms_list_of G ?K) ?rem = ?rem @ R" "set R \<subseteq> conf_id ` set (tl ?K)"
    by blast
  have "set R \<subseteq> conf_id ` set T" using R(2) K' by auto
  moreover have "set ?rem \<subseteq> conf_id ` set T" by (rule removed_by_energy_subset)
  ultimately show ?thesis using Some R(1) by (simp add: final_remove_ids_def)
qed

lemma marked_ids_lowest:
  assumes "distinct (map conf_id cs)" and "sort_key (\<lambda>c. energy_val ff (geom c)) cs = c0 # T"
  shows "conf_id c0 \<notin> set (marked_ids ff G cs energy rms)"
proof -
  have d: "distinct (map conf_id (c0 # T))"
    using sorted_confs_facts(4) [OF assms(2) assms(1)] .
  have "set (marked_ids ff G cs energy rms) \<subseteq> conf_id ` set T"
    using assms(2) final_remove_ids_subset [OF d] by (simp add: marked_ids_def)
  moreover have "conf_id c0 \<notin> conf_id ` set T" using d by simp
  ultimately show ?thesis by blast
qed

lemma sorted_pairs_split:
  assumes "conf_energies ff cs = Some e" and "sort_key snd e = (c0, en0) # e_tl"
  shows "sort_key (\<lambda>c. energy_val ff (geom c)) cs = c0 # map fst e_tl"
    and "en0 = energy_val ff (geom c0)"
    and "e_tl = map (\<lambda>c. (c, energy_val ff (geom c))) (map fst e_tl)"
proof -
  let ?f = "\<lambda>c. energy_val ff (geom c)"
  have e: "e = map (\<lambda>c. (c, ?f c)) cs" using assms(1) by (rule conf_energies_SomeD)
  define E where "E = sort_key ?f cs"
  have "map (\<lambda>c. (c, ?f c)) E = (c0, en0) # e_tl"
    using assms(2) unfolding e E_def by (simp only: sort_key_pairs)
  then obtain c T where E: "E = c # T" and 1: "(c, ?f c) = (c0, en0)"
    and 2: "map (\<lambda>c. (c, ?f c)) T = e_tl"
    by (cases E) auto
  have T: "map fst e_tl = T" unfolding 2 [symmetric] by (simp add: comp_def)
  from 1 have c: "c = c0" and en: "en0 = ?f c0" by auto
  show "sort_key ?f cs = c0 # map fst e_tl"
    unfolding T using E c by (simp only: E_def)
  show "en0 = ?f c0" by (rule en)
  show "e_tl = map (\<lambda>c. (c, ?f c)) (map fst e_tl)"
    unfolding T by (rule 2 [symmetric])
qed

lemma rms_loop_keeps: "set rem \<subseteq> set (rms_loop r L rem)"
proof (induction r L rem rule: rms_loop.induct)
  case (1 rms rms_list remove_ids)
  show ?case
  proof (cases "find (\<lambda>item. snd (snd item) < rms) rms_list")
    case None
    then show ?thesis by (subst rms_loop.simps) simp
  next
    case (Some item)
    have "set (remove_ids @ [conf_id (fst (snd item))])
        \<subseteq> set (rms_loop rms
            (filter (\<lambda>i. conf_id (fst i) \<noteq> conf_id (fst (snd item))
                        \<and> conf_id (fst (snd i)) \<noteq> conf_id (fst (snd item))) rms_list)
            (remove_ids @ [conf_id (fst (snd item))]))"
      using Some by (rule "1.IH")
    then show ?thesis using Some by (subst rms_loop.simps) simp
  qed
qed

lemma removed_by_energy_final:
  "set (removed_by_energy e0 e_tl energy) \<subseteq> set (final_remove_ids G e0 e_tl energy rms)"
  by (cases rms) (simp_all add: final_remove_ids_def rms_loop_keeps)

lemma no_close_pair_values:
  "(\<forall>item \<in> set (rms_list_of G K). \<not> snd (snd item) < r) \<longleftrightarrow>
   (\<forall>v \<in> set (map (\<lambda>(g1, g2). G g1 g2) (combinations2 (map geom K))). \<not> v < r)"
proof -
  have "(\<forall>item \<in> set (rms_list_of G K). \<not> snd (snd item) < r) \<longleftrightarrow>
      (\<forall>v \<in> set (map (\<lambda>item. snd (snd item)) (rms_list_of G K)). \<not> v < r)"
    by auto
  then show ?thesis by (simp only: rms_list_of_values)
qed

lemma final_remove_ids_nil:
  assumes en: "\<And>d. energy = Some d \<Longrightarrow> \<forall>c \<in> set T. f c - x \<le> d"
    and rm: "\<And>d r. energy = Some d \<Longrightarrow> rms = Some r \<Longrightarrow>
        \<forall>item \<in> set (rms_list_of G (c0 # T)). \<not> snd (snd item) < r"
  shows "final_remove_ids G (c0, x) (map (\<lambda>c. (c, f c)) T) energy rms = []"
proof (cases energy)
  case None
  have "rms_list_of G [c0] = []" by (simp add: rms_list_of_def)
  then have "rms_loop r (rms_list_of G [c0]) [] = []" for r
    by (simp add: rms_loop_nil)
  then show ?thesis
    using None by (cases rms) (simp_all add: final_remove_ids_def removed_by_energy_def kept_by_energy_def)
next
  case (Some d)
  have all: "\<forall>c \<in> set T. f c - x \<le> d" using en Some by simp
  then have pass: "filter (\<lambda>c. f c - x \<le> d) T = T" by (simp add: filter_id_conv)
  from all have fail: "filter (\<lambda>c. \<not> f c - x \<le> d) T = []" by (simp add: filter_empty_conv)
  have removed: "removed_by_energy (c0, x) (map (\<lambda>c. (c, f c)) T) energy = []"
    using fail Some by (simp add: removed_by_energy_def filter_map comp_def)
  have kept: "kept_by_energy (c0, x) (map (\<lambda>c. (c, f c)) T) energy = c0 # T"
    using pass Some by (simp add: kept_by_energy_def filter_map comp_def)
  show ?thesis
  proof (cases rms)
    case None
    then show ?thesis by (simp add: final_remove_ids_def removed)
  next
    case (Some r)
    have "rms_loop r (rms_list_of G (c0 # T)) [] = []"
      using rm [OF \<open>energy = Some d\<close> Some] by (rule rms_loop_nil)
    then show ?thesis using Some by (simp add: final_remove_ids_def removed kept)
  qed
qed

lemma sort_key_reindex:
  "map geom (sort_key (\<lambda>c. k (geom c)) (reindex S)) = map geom (sort_key (\<lambda>c. k (geom c)) S)"
proof -
  let ?psi = "\<lambda>z :: nat \<times> 'a conformer. Conformer (fst z) (geom (snd z))"
  let ?Z = "enumerate 0 S"
  have re: "reindex S = map ?psi ?Z" by (simp add: reindex_def case_prod_unfold)
  have "sort_key (\<lambda>c. k (geom c)) (map ?psi ?Z) = map ?psi (sort_key (\<lambda>z. k (geom (?psi z))) ?Z)"
    by (rule sort_key_map)
  then have 1: "sort_key (\<lambda>c. k (geom c)) (reindex S) = map ?psi (sort_key (\<lambda>z. k (geom (snd z))) ?Z)"
    by (simp add: re)
  have "sort_key (\<lambda>c. k (geom c)) (map snd ?Z) = map snd (sort_key (\<lambda>z. k (geom (snd z))) ?Z)"
    by (rule sort_key_map)
  then have 2: "map snd (sort_key (\<lambda>z. k (geom (snd z))) ?Z) = sort_key (\<lambda>c. k (geom c)) S"
    by simp
  have "map geom (map ?psi (sort_key (\<lambda>z. k (geom (snd z))) ?Z))
      = map geom (map snd (sort_key (\<lambda>z. k (geom (snd z))) ?Z))"
    by (simp add: comp_def)
  then show ?thesis by (simp only: 1 2)
qed

lemma energy_filter_by_id:
  assumes d: "distinct (map conf_id (c0 # T))"
  shows "filter (\<lambda>c. conf_id c \<notin> set (map conf_id (filter (\<lambda>c. \<not> pass c) T))) (c0 # T)
          = c0 # filter pass T"
proof -
  have inj: "inj_on conf_id (set (c0 # T))" using d by (simp only: distinct_map)
  have c0: "conf_id c0 \<notin> set (map conf_id (filter (\<lambda>c. \<not> pass c) T))"
    using d by auto
  have "filter (\<lambda>c. conf_id c \<notin> set (map conf_id (filter (\<lambda>c. \<not> pass c) T))) T = filter pass T"
  proof (rule filter_cong [OF refl])
    fix c assume c: "c \<in> set T"
    show "(conf_id c \<notin> set (map conf_id (filter (\<lambda>c. \<not> pass c) T))) = pass c"
    proof
      assume "conf_id c \<notin> set (map conf_id (filter (\<lambda>c. \<not> pass c) T))"
      with c show "pass c" by auto
    next
      assume p: "pass c"
      show "conf_id c \<notin> set (map conf_id (filter (\<lambda>c. \<not> pass c) T))"
      proof
        assume "conf_id c \<in> set (map conf_id (filter (\<lambda>c. \<not> pass c) T))"
        then obtain c' where c': "c' \<in> set T" "\<not> pass c'" "conf_id c' = conf_id c" by auto
        from inj c c'(1) c'(3) have "c' = c" by (auto dest: inj_onD)
        with p c'(2) show False by simp
      qed
    qed
  qed
  with c0 show ?thesis by simp
qed

lemma first_run_no_close_pair:
  assumes d: "distinct (map conf_id (c0 # T))"
  shows "\<forall>item \<in> set (rms_list_of G
            (filter (\<lambda>c. conf_id c \<notin> set (final_remove_ids G (c0, f c0) (map (\<lambda>c. (c, f c)) T) (Some en) (Some r)))
               (c0 # T))).
          \<not> snd (snd item) < r"
proof -
  let ?pass = "\<lambda>c. f c - f c0 \<le> en"
  define K where "K = c0 # filter ?pass T"
  define remE where "remE = map conf_id (filter (\<lambda>c. \<not> ?pass c) T)"
  have kept: "kept_by_energy (c0, f c0) (map (\<lambda>c. (c, f c)) T) (Some en) = K"
    unfolding K_def by (rule kept_by_energy_pairs)
  have removed: "removed_by_energy (c0, f c0) (map (\<lambda>c. (c, f c)) T) (Some en) = remE"
    unfolding remE_def by (rule removed_by_energy_pairs)
  have final: "final_remove_ids G (c0, f c0) (map (\<lambda>c. (c, f c)) T) (Some en) (Some r)
      = rms_loop r (rms_list_of G K) remE"
    by (simp add: final_remove_ids_def kept removed)
  have dK: "distinct (map conf_id K)"
    using kept_by_energy_distinct [OF d, of "f c0" f "Some en"] by (simp only: kept)
  from rms_loop_spec [OF dK, of r G remE]
  obtain R where R: "rms_loop r (rms_list_of G K) remE = remE @ R"
    "\<forall>item \<in> set (rms_list_of G (filter (\<lambda>c. conf_id c \<notin> set R) K)). \<not> snd (snd item) < r"
    by blast
  have "filter (\<lambda>c. conf_id c \<notin> set (remE @ R)) (c0 # T)
      = filter (\<lambda>c. conf_id c \<notin> set R) (filter (\<lambda>c. conf_id c \<notin> set remE) (c0 # T))"
    by (auto intro: filter_cong)
  also have "filter (\<lambda>c. conf_id c \<notin> set remE) (c0 # T) = K"
    unfolding remE_def K_def using d by (rule energy_filter_by_id)
  finally have "filter (\<lambda>c. conf_id c \<notin> set (remE @ R)) (c0 # T) = filter (\<lambda>c. conf_id c \<notin> set R) K" .
  with R(2) show ?thesis by (simp only: final R(1))
qed

lemma first_run_energy_pass:
  assumes c: "c \<in> set T"
    and P: "conf_id c \<notin> set (final_remove_ids G (c0, f c0) (map (\<lambda>c. (c, f c)) T) (Some en) rms)"
  shows "f c - f c0 \<le> en"
proof (rule ccontr)
  assume "\<not> f c - f c0 \<le> en"
  with c have "conf_id c \<in> set (map conf_id (filter (\<lambda>c. \<not> f c - f c0 \<le> en) T))" by auto
  then have "conf_id c \<in> set (removed_by_energy (c0, f c0) (map (\<lambda>c. (c, f c)) T) (Some en))"
    by (simp only: removed_by_energy_pairs)
  then have "conf_id c \<in> set (final_remove_ids G (c0, f c0) (map (\<lambda>c. (c, f c)) T) (Some en) rms)"
    using removed_by_energy_final by blast
  with P show False by simp
qed

lemma second_run_marks_nothing:
  fixes cs :: "'g conformer list"
  assumes dist: "distinct (map conf_id cs)"
  shows "marked_ids ff G
           (reindex (filter (\<lambda>c. conf_id c \<notin> set (marked_ids ff G cs energy rms)) cs)) energy rms = []"
proof (cases "sort_key (\<lambda>c. energy_val ff (geom c))
    (reindex (filter (\<lambda>c. conf_id c \<notin> set (marked_ids ff G cs energy rms)) cs))")
  case Nil
  then show ?thesis by (simp add: marked_ids_def)
next
  case (Cons c0' T')
  define P where "P = (\<lambda>c :: 'g conformer. conf_id c \<notin> set (marked_ids ff G cs energy rms))"
  let ?f = "\<lambda>c :: 'g conformer. energy_val ff (geom c)"
  define S where "S = filter P cs"
  have E2: "sort_key ?f (reindex S) = c0' # T'" using Cons by (simp only: S_def P_def)
  have "length (sort_key ?f (reindex S)) = length cs - length (filter (\<lambda>c. \<not> P c) cs)"
    by (simp add: length_reindex S_def) (metis add_diff_cancel_right' sum_length_filter_compl)
  with E2 have "cs \<noteq> []" by auto
  then have "sort_key ?f cs \<noteq> []" by (metis length_0_conv length_sort)
  then obtain c0 T where E: "sort_key ?f cs = c0 # T" by (cases "sort_key ?f cs") auto
  have dE: "distinct (map conf_id (c0 # T))"
    using sorted_confs_facts(4) [OF E dist] .
  have marked: "marked_ids ff G cs energy rms =
      final_remove_ids G (c0, ?f c0) (map (\<lambda>c. (c, ?f c)) T) energy rms"
    by (simp add: marked_ids_def E)
  have Pc0: "P c0" unfolding P_def using dist E by (rule marked_ids_lowest)
  have "sort_key ?f S = filter P (sort_key ?f cs)"
    unfolding S_def by (rule filter_sort [symmetric])
  then have ES: "sort_key ?f S = c0 # filter P T" using E Pc0 by simp
  have "map geom (sort_key ?f (reindex S)) = map geom (sort_key ?f S)"
    by (rule sort_key_reindex)
  then have g: "map geom (c0' # T') = map geom (c0 # filter P T)"
    by (simp only: E2 ES)
  then have g0: "geom c0' = geom c0" and gT: "map geom T' = map geom (filter P T)"
    by simp_all
  have "final_remove_ids G (c0', ?f c0') (map (\<lambda>c. (c, ?f c)) T') energy rms = []"
  proof (rule final_remove_ids_nil)
    fix d assume d: "energy = Some d"
    show "\<forall>c \<in> set T'. ?f c - ?f c0' \<le> d"
    proof
      fix c assume "c \<in> set T'"
      then have "geom c \<in> set (map geom T')" by simp
      then have "geom c \<in> set (map geom (filter P T))" by (simp only: gT)
      then obtain c1 where c1: "c1 \<in> set T" "P c1" "geom c1 = geom c" by auto
      from d marked have marked_d: "marked_ids ff G cs (Some d) rms =
          final_remove_ids G (c0, ?f c0) (map (\<lambda>c. (c, ?f c)) T) (Some d) rms"
        by simp
      from c1(2) have "conf_id c1 \<notin> set (marked_ids ff G cs (Some d) rms)"
        unfolding P_def d .
      then have "conf_id c1 \<notin> set (final_remove_ids G (c0, ?f c0) (map (\<lambda>c. (c, ?f c)) T) (Some d) rms)"
        unfolding marked_d .
      with c1(1) have "?f c1 - ?f c0 \<le> d" by (rule first_run_energy_pass)
      then show "?f c - ?f c0' \<le> d" by (simp only: c1(3) g0)
    qed
  next
    fix d r assume d: "energy = Some d" and r: "rms = Some r"
    have PT: "filter P (c0 # T) = c0 # filter P T" using Pc0 by simp
    have "\<forall>item \<in> set (rms_list_of G
            (filter (\<lambda>c. conf_id c \<notin> set (final_remove_ids G (c0, ?f c0) (map (\<lambda>c. (c, ?f c)) T) (Some d) (Some r)))
               (c0 # T))).
          \<not> snd (snd item) < r"
      using dE by (rule first_run_no_close_pair)
    moreover from d r marked have "P = (\<lambda>c. conf_id c \<notin>
        set (final_remove_ids G (c0, ?f c0) (map (\<lambda>c. (c, ?f c)) T) (Some d) (Some r)))"
      by (simp add: P_def)
    ultimately have "\<forall>item \<in> set (rms_list_of G (filter P (c0 # T))). \<not> snd (snd item) < r"
      by simp
    then have "\<forall>item \<in> set (rms_list_of G (c0 # filter P T)). \<not> snd (snd item) < r"
      by (simp only: PT)
    then have "\<forall>v \<in> set (map (\<lambda>(g1, g2). G g1 g2) (combinations2 (map geom (c0 # filter P T)))). \<not> v < r"
      by (simp only: no_close_pair_values)
    then have "\<forall>v \<in> set (map (\<lambda>(g1, g2). G g1 g2) (combinations2 (map geom (c0' # T')))). \<not> v < r"
      by (simp only: g)
    then show "\<forall>item \<in> set (rms_list_of G (c0' # T')). \<not> snd (snd item) < r"
      by (simp only: no_close_pair_values)
  qed
  then show ?thesis using E2 by (simp add: marked_ids_def S_def P_def)
qed

text \<open>
  With an energy cutoff set, the RMS threshold is respected: among the conformers that
  \<open>remove_confs\<close> leaves, taken in the order of their energies, no conformer is closer than
  \<open>rms\<close> to one before it.
\<close>

lemma rms_respected_with_cutoff:
  fixes mol :: "'g mol"
  assumes wf: "wf_mol mol" and ce: "conf_energies ff (GetConformers mol) \<noteq> None"
  shows "\<forall>v \<in> set (map (\<lambda>(g1, g2). G g1 g2)
            (combinations2 (map geom (sort_key (\<lambda>c. energy_val ff (geom c))
               (GetConformers (fst (remove_confs ff G mol (Some en) (Some r)))))))).
          \<not> v < r"
proof -
  let ?cs = "GetConformers mol"
  let ?f = "\<lambda>c :: 'g conformer. energy_val ff (geom c)"
  define P where "P = (\<lambda>c :: 'g conformer. conf_id c \<notin> set (marked_ids ff G ?cs (Some en) (Some r)))"
  from ce obtain e where "conf_energies ff ?cs = Some e" by auto
  then have all: "\<forall>c \<in> set ?cs. ff (geom c) \<noteq> None" by (rule conf_energies_SomeD)
  have dist: "distinct (map conf_id ?cs)" using wf by (simp add: wf_mol_def)
  have run: "GetConformers (fst (remove_confs ff G mol (Some en) (Some r))) = reindex (filter P ?cs)"
    by (simp add: remove_confs_char [OF wf all] P_def)
  have "map geom (sort_key ?f (reindex (filter P ?cs))) = map geom (sort_key ?f (filter P ?cs))"
    by (rule sort_key_reindex)
  also have "sort_key ?f (filter P ?cs) = filter P (sort_key ?f ?cs)"
    by (rule filter_sort [symmetric])
  finally have g: "map geom (sort_key ?f (reindex (filter P ?cs))) = map geom (filter P (sort_key ?f ?cs))" .
  show ?thesis
  proof (cases "sort_key ?f ?cs")
    case Nil
    then show ?thesis unfolding run g by simp
  next
    case (Cons c0 T)
    have dE: "distinct (map conf_id (c0 # T))"
      using sorted_confs_facts(4) [OF Cons dist] .
    have P: "P = (\<lambda>c. conf_id c \<notin> set (final_remove_ids G (c0, ?f c0) (map (\<lambda>c. (c, ?f c)) T) (Some en) (Some r)))"
      by (simp add: P_def marked_ids_def Cons)
    have "\<forall>item \<in> set (rms_list_of G (filter P (c0 # T))). \<not> snd (snd item) < r"
      unfolding P using dE by (rule first_run_no_close_pair)
    then have "\<forall>v \<in> set (map (\<lambda>(g1, g2). G g1 g2) (combinations2 (map geom (filter P (c0 # T))))). \<not> v < r"
      by (simp only: no_close_pair_values)
    then show ?thesis unfolding run g Cons .
  qed
qed

lemmas remove_confs_eval = remove_confs_def final_remove_ids_def kept_by_energy_def
  removed_by_energy_def rms_list_of_def rms_loop.simps reindex_def

text \<open>
  Claim C7. When every energy can be computed, the conformers that \<open>remove_confs\<close> leaves
  on the molecule carry the ids 0, 1, ..., k - 1 in this order, k being their number,
  whatever the energy cutoff and the RMS threshold are.
\<close>

theorem ids_contiguous:
  "wf_mol mol \<and> conf_energies ff (GetConformers mol) \<noteq> None \<longrightarrow>
   map conf_id (GetConformers (fst (remove_confs ff GetConformerRMS mol energy rms))) =
     [0..<length (GetConformers (fst (remove_confs ff GetConformerRMS mol energy rms)))]"
proof (intro impI, elim conjE)
  assume wf: "wf_mol mol" and "conf_energies ff (GetConformers mol) \<noteq> None"
  then obtain e where "conf_energies ff (GetConformers mol) = Some e" by auto
  then have "\<forall>c \<in> set (GetConformers mol). ff (geom c) \<noteq> None"
    by (rule conf_energies_SomeD)
  with wf show "map conf_id (GetConformers (fst (remove_confs ff GetConformerRMS mol energy rms))) =
     [0..<length (GetConformers (fst (remove_confs ff GetConformerRMS mol energy rms)))]"
    by (simp only: remove_confs_char fst_conv reindex_ids)
qed

theorem ids_contiguous_witness:
  "wf_mol (Mol ''CC'' [Conformer 0 (2::nat), Conformer 1 0, Conformer 2 1])
   \<and> conf_energies (\<lambda>g. Some (real g)) (GetConformers (Mol ''CC'' [Conformer 0 (2::nat), Conformer 1 0, Conformer 2 1]))
       \<noteq> None
   \<and> map conf_id (GetConformers (fst (remove_confs (\<lambda>g. Some (real g)) (\<lambda>a b. \<bar>real a - real b\<bar>)
         (Mol ''CC'' [Conformer 0 (2::nat), Conformer 1 0, Conformer 2 1]) (Some 5) (Some (3 / 2)))))
       = [0..<2]"
proof -
  let ?M = "Mol ''CC'' [Conformer 0 (2::nat), Conformer 1 0, Conformer 2 1]"
  let ?ff = "\<lambda>g::nat. Some (real g)"
  let ?G = "\<lambda>a b::nat. \<bar>real a - real b\<bar>"
  have h: "wf_mol ?M \<and> conf_energies ?ff (GetConformers ?M) \<noteq> None"
    by (simp add: wf_mol_def)
  have r: "remove_confs ?ff ?G ?M (Some 5) (Some (3 / 2)) = (Mol ''CC'' [Conformer 0 2, Conformer 1 0], [])"
    by (simp add: remove_confs_eval)
  from ids_contiguous [of ?M ?ff ?G "Some 5" "Some (3 / 2)"] h
  have "map conf_id (GetConformers (fst (remove_confs ?ff ?G ?M (Some 5) (Some (3 / 2))))) =
     [0..<length (GetConformers (fst (remove_confs ?ff ?G ?M (Some 5) (Some (3 / 2)))))]"
    by blast
  then have "map conf_id (GetConformers (fst (remove_confs ?ff ?G ?M (Some 5) (Some (3 / 2))))) = [0..<2]"
    unfolding r by (simp add: upt_rec)
  with h show ?thesis by blast
qed

text \<open>
  Claim C9. The first conformer of the energy-sorted list \<open>e\<close>, a conformer of least energy,
  is never marked for removal: the conformers left on the molecule are the conformers of the
  input whose ids are not in \<open>remove_ids\<close>, renumbered, and the id of that conformer is not in
  \<open>remove_ids\<close>. So the molecule returned has it, with its geometry, under the id of its place
  among the conformers left. This holds for every energy cutoff and RMS threshold, set or not.
  When several conformers share the least energy, the one that stays for sure is the first
  of them in the molecule, which the stable sort puts first.
\<close>

theorem lowest_conformer_kept:
  "wf_mol mol \<and> conf_energies ff (GetConformers mol) = Some e_unsorted
     \<and> sort_key snd e_unsorted = (c0, en0) # e_tl \<longrightarrow>
   c0 \<in> set (GetConformers mol) \<and> ff (geom c0) = Some en0
   \<and> (\<forall>c \<in> set (GetConformers mol). \<forall>en. ff (geom c) = Some en \<longrightarrow> en0 \<le> en)
   \<and> (\<exists>remove_ids. conf_id c0 \<notin> set remove_ids
        \<and> GetConformers (fst (remove_confs ff GetConformerRMS mol energy rms)) =
            reindex (filter (\<lambda>c. conf_id c \<notin> set remove_ids) (GetConformers mol)))
   \<and> (\<exists>k < length (GetConformers (fst (remove_confs ff GetConformerRMS mol energy rms))).
         GetConformers (fst (remove_confs ff GetConformerRMS mol energy rms)) ! k = Conformer k (geom c0))"
proof (intro impI, elim conjE)
  let ?cs = "GetConformers mol"
  let ?f = "\<lambda>c. energy_val ff (geom c)"
  assume wf: "wf_mol mol" and ce: "conf_energies ff ?cs = Some e_unsorted"
    and so: "sort_key snd e_unsorted = (c0, en0) # e_tl"
  have all: "\<forall>c \<in> set ?cs. ff (geom c) \<noteq> None" using ce by (rule conf_energies_SomeD)
  have E: "sort_key ?f ?cs = c0 # map fst e_tl"
    using ce so by (rule sorted_pairs_split(1))
  have en0: "en0 = ?f c0"
    using ce so by (rule sorted_pairs_split(2))
  have dist: "distinct (map conf_id ?cs)" using wf by (simp add: wf_mol_def)
  have mem: "c0 \<in> set ?cs" using sorted_confs_facts(1) [OF E] by simp
  have low: "\<forall>c \<in> set ?cs. ?f c0 \<le> ?f c" using sorted_confs_facts(2) [OF E] .
  have 1: "ff (geom c0) = Some en0"
    unfolding en0 using all mem by (intro energy_val_Some) simp
  have 2: "\<forall>c \<in> set ?cs. \<forall>en. ff (geom c) = Some en \<longrightarrow> en0 \<le> en"
  proof (intro ballI allI impI)
    fix c en assume "c \<in> set ?cs" "ff (geom c) = Some en"
    then show "en0 \<le> en" using low en0 by (auto simp: energy_val_def)
  qed
  have 3: "conf_id c0 \<notin> set (marked_ids ff GetConformerRMS ?cs energy rms)"
    using dist E by (rule marked_ids_lowest)
  have 4: "GetConformers (fst (remove_confs ff GetConformerRMS mol energy rms)) =
      reindex (filter (\<lambda>c. conf_id c \<notin> set (marked_ids ff GetConformerRMS ?cs energy rms)) ?cs)"
    by (simp add: remove_confs_char [OF wf all])
  have 5: "\<exists>k < length (GetConformers (fst (remove_confs ff GetConformerRMS mol energy rms))).
         GetConformers (fst (remove_confs ff GetConformerRMS mol energy rms)) ! k = Conformer k (geom c0)"
  proof -
    let ?S = "filter (\<lambda>c. conf_id c \<notin> set (marked_ids ff GetConformerRMS ?cs energy rms)) ?cs"
    from mem 3 have "c0 \<in> set ?S" by simp
    then obtain k where k: "k < length ?S" "?S ! k = c0" unfolding in_set_conv_nth by blast
    then have "reindex ?S ! k = Conformer k (geom c0)" by (simp add: nth_reindex)
    with k(1) show ?thesis unfolding 4 by (auto simp: length_reindex)
  qed
  from mem 1 2 3 4 5
  show "c0 \<in> set ?cs \<and> ff (geom c0) = Some en0
   \<and> (\<forall>c \<in> set ?cs. \<forall>en. ff (geom c) = Some en \<longrightarrow> en0 \<le> en)
   \<and> (\<exists>remove_ids. conf_id c0 \<notin> set remove_ids
        \<and> GetConformers (fst (remove_confs ff GetConformerRMS mol energy rms)) =
            reindex (filter (\<lambda>c. conf_id c \<notin> set remove_ids) ?cs))
   \<and> (\<exists>k < length (GetConformers (fst (remove_confs ff GetConformerRMS mol energy rms))).
         GetConformers (fst (remove_confs ff GetConformerRMS mol energy rms)) ! k = Conformer k (geom c0))"
    by blast
qed


theorem lowest_conformer_kept_witness:
  "wf_mol (Mol ''CC'' [Conformer 0 (2::nat), Conformer 1 0, Conformer 2 1])
   \<and> conf_energies (\<lambda>g. Some (real g)) (GetConformers (Mol ''CC'' [Conformer 0 (2::nat), Conformer 1 0, Conformer 2 1]))
       = Some [(Conformer 0 2, 2), (Conformer 1 0, 0), (Conformer 2 1, 1)]
   \<and> sort_key snd [(Conformer 0 (2::nat), 2::real), (Conformer 1 0, 0), (Conformer 2 1, 1)]
       = (Conformer 1 0, 0) # [(Conformer 2 1, 1), (Conformer 0 2, 2)]
   \<and> Conformer 1 0 \<in> set (GetConformers (Mol ''CC'' [Conformer 0 (2::nat), Conformer 1 0, Conformer 2 1]))
   \<and> (\<exists>remove_ids. conf_id (Conformer 1 (0::nat)) \<notin> set remove_ids
        \<and> GetConformers (fst (remove_confs (\<lambda>g. Some (real g)) (\<lambda>a b. \<bar>real a - real b\<bar>)
             (Mol ''CC'' [Conformer 0 (2::nat), Conformer 1 0, Conformer 2 1]) (Some 5) (Some (3 / 2))))
          = reindex (filter (\<lambda>c. conf_id c \<notin> set remove_ids)
              (GetConformers (Mol ''CC'' [Conformer 0 (2::nat), Conformer 1 0, Conformer 2 1]))))
   \<and> GetConformers (fst (remove_confs (\<lambda>g. Some (real g)) (\<lambda>a b. \<bar>real a - real b\<bar>)
        (Mol ''CC'' [Conformer 0 (2::nat), Conformer 1 0, Conformer 2 1]) (Some 5) (Some (3 / 2))))
      = [Conformer 0 2, Conformer 1 0]"
proof -
  let ?M = "Mol ''CC'' [Conformer 0 (2::nat), Conformer 1 0, Conformer 2 1]"
  let ?ff = "\<lambda>g::nat. Some (real g)"
  let ?G = "\<lambda>a b::nat. \<bar>real a - real b\<bar>"
  let ?e = "[(Conformer 0 (2::nat), 2::real), (Conformer 1 0, 0), (Conformer 2 1, 1)]"
  let ?tl = "[(Conformer 2 (1::nat), 1::real), (Conformer 0 2, 2)]"
  have h: "wf_mol ?M \<and> conf_energies ?ff (GetConformers ?M) = Some ?e
      \<and> sort_key snd ?e = (Conformer 1 0, 0) # ?tl"
    by (simp add: wf_mol_def)
  have r: "GetConformers (fst (remove_confs ?ff ?G ?M (Some 5) (Some (3 / 2)))) = [Conformer 0 2, Conformer 1 0]"
    by (simp add: remove_confs_eval)
  from lowest_conformer_kept [of ?M ?ff ?e "Conformer 1 0" 0 ?tl ?G "Some 5" "Some (3 / 2)"] h
  have "Conformer 1 0 \<in> set (GetConformers ?M)
   \<and> (\<exists>remove_ids. conf_id (Conformer 1 (0::nat)) \<notin> set remove_ids
        \<and> GetConformers (fst (remove_confs ?ff ?G ?M (Some 5) (Some (3 / 2)))) =
            reindex (filter (\<lambda>c. conf_id c \<notin> set remove_ids) (GetConformers ?M)))"
    by blast
  with h r show ?thesis by blast
qed

text \<open>
  Claim C4, as the code has it. With the energy cutoff 0 and no RMS threshold, a conformer
  stays when its energy minus the least energy is at most 0, that is when its energy equals
  the least energy: \<open>remove_confs\<close> leaves exactly the conformers whose energy is the least
  one, renumbered. When one conformer only has the least energy, it alone stays.
\<close>

theorem energy_zero_keeps_minima:
  "wf_mol mol \<and> conf_energies ff (GetConformers mol) = Some e_unsorted
     \<and> sort_key snd e_unsorted = (c0, en0) # e_tl \<longrightarrow>
   (\<forall>c \<in> set (GetConformers mol). \<forall>en. ff (geom c) = Some en \<longrightarrow> en0 \<le> en)
   \<and> GetConformers (fst (remove_confs ff GetConformerRMS mol (Some 0) None)) =
       reindex (filter (\<lambda>c. ff (geom c) = Some en0) (GetConformers mol))"
proof (intro impI, elim conjE)
  let ?cs = "GetConformers mol"
  let ?f = "\<lambda>c. energy_val ff (geom c)"
  assume wf: "wf_mol mol" and ce: "conf_energies ff ?cs = Some e_unsorted"
    and so: "sort_key snd e_unsorted = (c0, en0) # e_tl"
  define T where "T = map fst e_tl"
  have all: "\<forall>c \<in> set ?cs. ff (geom c) \<noteq> None" using ce by (rule conf_energies_SomeD)
  have E: "sort_key ?f ?cs = c0 # T"
    unfolding T_def using ce so by (rule sorted_pairs_split(1))
  have en0: "en0 = ?f c0"
    using ce so by (rule sorted_pairs_split(2))
  have dist: "distinct (map conf_id ?cs)" using wf by (simp add: wf_mol_def)
  have set: "set ?cs = insert c0 (set T)" using sorted_confs_facts(1) [OF E] .
  have low: "\<forall>c \<in> set ?cs. ?f c0 \<le> ?f c" using sorted_confs_facts(2) [OF E] .
  have inj: "inj_on conf_id (set ?cs)" using dist by (simp add: distinct_map)
  have 1: "\<forall>c \<in> set ?cs. \<forall>en. ff (geom c) = Some en \<longrightarrow> en0 \<le> en"
  proof (intro ballI allI impI)
    fix c en assume "c \<in> set ?cs" "ff (geom c) = Some en"
    then show "en0 \<le> en" using low en0 by (auto simp: energy_val_def)
  qed
  have marked: "marked_ids ff GetConformerRMS ?cs (Some 0) None =
      map conf_id (filter (\<lambda>c. \<not> ?f c - ?f c0 \<le> 0) T)"
    using removed_by_energy_pairs [of c0 ?f T 0]
    by (simp add: marked_ids_def E final_remove_ids_def)
  have "filter (\<lambda>c. conf_id c \<notin> set (marked_ids ff GetConformerRMS ?cs (Some 0) None)) ?cs =
      filter (\<lambda>c. ff (geom c) = Some en0) ?cs"
  proof (rule filter_cong [OF refl])
    fix c assume c: "c \<in> set ?cs"
    have some: "ff (geom c) = Some (?f c)" using all c by (intro energy_val_Some) simp
    have "conf_id c \<in> set (marked_ids ff GetConformerRMS ?cs (Some 0) None) \<longleftrightarrow> ?f c0 < ?f c"
    proof
      assume "conf_id c \<in> set (marked_ids ff GetConformerRMS ?cs (Some 0) None)"
      then obtain c' where c': "c' \<in> set T" "\<not> ?f c' - ?f c0 \<le> 0" "conf_id c' = conf_id c"
        unfolding marked by auto
      from c'(1) set have "c' \<in> set ?cs" by simp
      with inj c c'(3) have "c' = c" by (auto dest: inj_onD)
      with c'(2) show "?f c0 < ?f c" by simp
    next
      assume less: "?f c0 < ?f c"
      then have "c \<noteq> c0" by auto
      with c set have "c \<in> set T" by auto
      with less show "conf_id c \<in> set (marked_ids ff GetConformerRMS ?cs (Some 0) None)"
        unfolding marked by auto
    qed
    moreover have "?f c0 \<le> ?f c" using low c by simp
    ultimately show "(conf_id c \<notin> set (marked_ids ff GetConformerRMS ?cs (Some 0) None)) =
        (ff (geom c) = Some en0)"
      using some en0 by auto
  qed
  then have 2: "GetConformers (fst (remove_confs ff GetConformerRMS mol (Some 0) None)) =
       reindex (filter (\<lambda>c. ff (geom c) = Some en0) ?cs)"
    by (simp add: remove_confs_char [OF wf all])
  from 1 2 show "(\<forall>c \<in> set ?cs. \<forall>en. ff (geom c) = Some en \<longrightarrow> en0 \<le> en)
   \<and> GetConformers (fst (remove_confs ff GetConformerRMS mol (Some 0) None)) =
       reindex (filter (\<lambda>c. ff (geom c) = Some en0) ?cs)"
    by blast
qed

theorem energy_zero_keeps_minima_witness:
  "wf_mol (Mol ''CC'' [Conformer 0 (0::nat), Conformer 1 1, Conformer 2 2])
   \<and> conf_energies (\<lambda>g. Some (if g = 2 then 4 else 3))
        (GetConformers (Mol ''CC'' [Conformer 0 (0::nat), Conformer 1 1, Conformer 2 2]))
       = Some [(Conformer 0 0, 3), (Conformer 1 1, 3), (Conformer 2 2, 4)]
   \<and> sort_key snd [(Conformer 0 (0::nat), 3::real), (Conformer 1 1, 3), (Conformer 2 2, 4)]
       = (Conformer 0 0, 3) # [(Conformer 1 1, 3), (Conformer 2 2, 4)]
   \<and> GetConformers (fst (remove_confs (\<lambda>g. Some (if g = 2 then 4 else 3)) (\<lambda>a b. 1)
        (Mol ''CC'' [Conformer 0 (0::nat), Conformer 1 1, Conformer 2 2]) (Some 0) None))
      = reindex (filter (\<lambda>c. (if geom c = 2 then Some 4 else Some (3::real)) = Some 3)
          (GetConformers (Mol ''CC'' [Conformer 0 (0::nat), Conformer 1 1, Conformer 2 2])))"
proof -
  let ?M = "Mol ''CC'' [Conformer 0 (0::nat), Conformer 1 1, Conformer 2 2]"
  let ?ff = "\<lambda>g::nat. Some (if g = 2 then 4 else 3::real)"
  let ?e = "[(Conformer 0 (0::nat), 3::real), (Conformer 1 1, 3), (Conformer 2 2, 4)]"
  let ?tl = "[(Conformer 1 (1::nat), 3::real), (Conformer 2 2, 4)]"
  have h: "wf_mol ?M \<and> conf_energies ?ff (GetConformers ?M) = Some ?e
      \<and> sort_key snd ?e = (Conformer 0 0, 3) # ?tl"
    by (simp add: wf_mol_def)
  from energy_zero_keeps_minima [of ?M ?ff ?e "Conformer 0 0" 3 ?tl "\<lambda>a b. 1"] h
  have "GetConformers (fst (remove_confs ?ff (\<lambda>a b. 1) ?M (Some 0) None)) =
       reindex (filter (\<lambda>c. ?ff (geom c) = Some 3) (GetConformers ?M))"
    by blast
  with h show ?thesis by simp
qed

text \<open>
  Claim C4 as stated fails: three conformers with the energies 3, 3 and 4. With the cutoff 0
  the two conformers of energy 3 both stay; only the conformer of energy 4 is removed.
\<close>

theorem energy_zero_keeps_ties:
  "remove_confs (\<lambda>g. Some (if g = 2 then 4 else 3)) (\<lambda>a b. 1)
     (Mol ''CC'' [Conformer 0 (0::nat), Conformer 1 1, Conformer 2 2]) (Some 0) None
   = (Mol ''CC'' [Conformer 0 0, Conformer 1 1], [])"
  by (simp add: remove_confs_eval)

text \<open>
  Claim C3 fails on the code when the energy cutoff is not set. \<open>kept_ids\<close> starts with the
  lowest conformer only and is filled by the energy loop; without a cutoff that loop does
  not run, \<open>rms_list\<close> is empty and nothing is removed. Two conformers at RMS 0.1 both stay
  under the threshold 0.5; with a cutoff that keeps both, the second one is removed.
\<close>

theorem rms_threshold_ignored_without_cutoff:
  "remove_confs (\<lambda>g. Some (real g + 1)) (\<lambda>a b. 1 / 10)
     (Mol ''CC'' [Conformer 0 (0::nat), Conformer 1 1]) None (Some (1 / 2))
   = (Mol ''CC'' [Conformer 0 0, Conformer 1 1], [])
   \<and> (\<lambda>a b::nat. 1 / 10 :: real) (geom (Conformer 0 (0::nat))) (geom (Conformer 1 (1::nat))) < 1 / 2
   \<and> remove_confs (\<lambda>g. Some (real g + 1)) (\<lambda>a b. 1 / 10)
     (Mol ''CC'' [Conformer 0 (0::nat), Conformer 1 1]) (Some 10) (Some (1 / 2))
   = (Mol ''CC'' [Conformer 0 0], [])"
  by (simp add: remove_confs_eval)

text \<open>
  Claim C6. Running \<open>remove_confs\<close> again, with the same energy cutoff and RMS threshold, on
  the molecule a first run returned removes nothing: the molecule comes back unchanged and
  nothing is written to standard error. The energy of a conformer and the RMS of two
  conformers are functions of their geometries here, so the second run computes the values
  of the first.
\<close>

theorem remove_confs_idempotent:
  "wf_mol mol \<and> conf_energies ff (GetConformers mol) \<noteq> None \<longrightarrow>
   remove_confs ff GetConformerRMS (fst (remove_confs ff GetConformerRMS mol energy rms)) energy rms =
     (fst (remove_confs ff GetConformerRMS mol energy rms), [])"
proof (intro impI, elim conjE)
  let ?cs = "GetConformers mol"
  let ?G = GetConformerRMS
  assume wf: "wf_mol mol" and ce: "conf_energies ff ?cs \<noteq> None"
  then obtain e where "conf_energies ff ?cs = Some e" by auto
  then have all: "\<forall>c \<in> set ?cs. ff (geom c) \<noteq> None" by (rule conf_energies_SomeD)
  have dist: "distinct (map conf_id ?cs)" using wf by (simp add: wf_mol_def)
  define S where "S = filter (\<lambda>c. conf_id c \<notin> set (marked_ids ff ?G ?cs energy rms)) ?cs"
  define m1 where "m1 = Mol (MolToSmiles mol) (reindex S)"
  have run1: "remove_confs ff ?G mol energy rms = (m1, [])"
    unfolding m1_def S_def using wf all by (rule remove_confs_char)
  have wf1: "wf_mol m1"
    by (simp add: wf_mol_def m1_def conf_id_reindex)
  have all1: "\<forall>c \<in> set (GetConformers m1). ff (geom c) \<noteq> None"
  proof
    fix c assume "c \<in> set (GetConformers m1)"
    then have "geom c \<in> set (map geom (reindex S))" by (simp add: m1_def)
    then have "geom c \<in> set (map geom S)" by (simp only: geom_reindex)
    then obtain c1 where "c1 \<in> set ?cs" "geom c1 = geom c" unfolding S_def by auto
    with all show "ff (geom c) \<noteq> None" by metis
  qed
  have "marked_ids ff ?G (reindex S) energy rms = []"
    unfolding S_def using dist by (rule second_run_marks_nothing)
  then have none_marked: "marked_ids ff ?G (GetConformers m1) energy rms = []"
    by (simp add: m1_def)
  have "remove_confs ff ?G m1 energy rms =
      (Mol (MolToSmiles m1)
         (reindex (filter (\<lambda>c. conf_id c \<notin> set (marked_ids ff ?G (GetConformers m1) energy rms))
            (GetConformers m1))), [])"
    using wf1 all1 by (rule remove_confs_char)
  also have "\<dots> = (Mol (MolToSmiles m1) (reindex (GetConformers m1)), [])"
    by (simp add: none_marked)
  also have "\<dots> = (m1, [])"
    by (simp add: m1_def reindex_reindex)
  finally show "remove_confs ff ?G (fst (remove_confs ff ?G mol energy rms)) energy rms =
     (fst (remove_confs ff ?G mol energy rms), [])"
    by (simp add: run1)
qed

theorem remove_confs_idempotent_witness:
  "wf_mol (Mol ''CC'' [Conformer 0 (2::nat), Conformer 1 0, Conformer 2 1])
   \<and> conf_energies (\<lambda>g. Some (real g)) (GetConformers (Mol ''CC'' [Conformer 0 (2::nat), Conformer 1 0, Conformer 2 1]))
       \<noteq> None
   \<and> remove_confs (\<lambda>g. Some (real g)) (\<lambda>a b. \<bar>real a - real b\<bar>)
        (Mol ''CC'' [Conformer 0 (2::nat), Conformer 1 0, Conformer 2 1]) (Some 5) (Some (3 / 2))
      = (Mol ''CC'' [Conformer 0 2, Conformer 1 0], [])
   \<and> remove_confs (\<lambda>g. Some (real g)) (\<lambda>a b. \<bar>real a - real b\<bar>)
        (Mol ''CC'' [Conformer 0 (2::nat), Conformer 1 0]) (Some 5) (Some (3 / 2))
      = (Mol ''CC'' [Conformer 0 2, Conformer 1 0], [])"
proof -
  let ?M = "Mol ''CC'' [Conformer 0 (2::nat), Conformer 1 0, Conformer 2 1]"
  let ?ff = "\<lambda>g::nat. Some (real g)"
  let ?G = "\<lambda>a b::nat. \<bar>real a - real b\<bar>"
  have h: "wf_mol ?M \<and> conf_energies ?ff (GetConformers ?M) \<noteq> None"
    by (simp add: wf_mol_def)
  have r: "remove_confs ?ff ?G ?M (Some 5) (Some (3 / 2)) = (Mol ''CC'' [Conformer 0 2, Conformer 1 0], [])"
    by (simp add: remove_confs_eval)
  from remove_confs_idempotent [of ?M ?ff ?G "Some 5" "Some (3 / 2)"] h
  have "remove_confs ?ff ?G (fst (remove_confs ?ff ?G ?M (Some 5) (Some (3 / 2)))) (Some 5) (Some (3 / 2)) =
     (fst (remove_confs ?ff ?G ?M (Some 5) (Some (3 / 2))), [])"
    by blast
  then have "remove_confs ?ff ?G (Mol ''CC'' [Conformer 0 (2::nat), Conformer 1 0]) (Some 5) (Some (3 / 2))
      = (Mol ''CC'' [Conformer 0 2, Conformer 1 0], [])"
    unfolding r by simp
  with h r show ?thesis by blast
qed

subsection \<open>Properties of the unit of work and the orchestrator\<close>

lemma new_name_loop_stop:
  "new_in_fname \<notin> set existing \<Longrightarrow> new_name_loop existing in_fname new_in_fname suffix = new_in_fname"
  by (simp add: new_name_loop.simps)

lemma new_name_loop_next:
  "new_in_fname \<in> set existing \<Longrightarrow>
   new_name_loop existing in_fname new_in_fname suffix =
     new_name_loop existing in_fname
       (splitext_root in_fname @ ''-updated'' @ str_nat suffix @ ''.smi'') (suffix + 1)"
  by (subst new_name_loop.simps) simp

lemma new_name_loop_fresh: "new_name_loop existing in_fname new_in_fname suffix \<notin> set existing"
proof (induction existing in_fname new_in_fname suffix rule: new_name_loop.induct)
  case (1 existing in_fname new_in_fname suffix)
  show ?case
  proof (cases "new_in_fname \<in> set existing")
    case True
    with "1.IH" show ?thesis by (simp add: new_name_loop_next)
  next
    case False
    then show ?thesis by (simp add: new_name_loop_stop)
  qed
qed

lemma new_name_loop_form:
  "new_name_loop existing in_fname new_in_fname suffix = new_in_fname
   \<or> (\<exists>k\<ge>suffix. new_name_loop existing in_fname new_in_fname suffix =
          splitext_root in_fname @ ''-updated'' @ str_nat k @ ''.smi'')"
proof (induction existing in_fname new_in_fname suffix rule: new_name_loop.induct)
  case (1 existing in_fname new_in_fname suffix)
  let ?next = "splitext_root in_fname @ ''-updated'' @ str_nat suffix @ ''.smi''"
  show ?case
  proof (cases "new_in_fname \<in> set existing")
    case False
    then show ?thesis by (simp add: new_name_loop_stop)
  next
    case True
    then have step: "new_name_loop existing in_fname new_in_fname suffix =
        new_name_loop existing in_fname ?next (suffix + 1)"
      by (rule new_name_loop_next)
    from "1.IH" [OF True]
    have "new_name_loop existing in_fname ?next (suffix + 1) = ?next
       \<or> (\<exists>k\<ge>suffix + 1. new_name_loop existing in_fname ?next (suffix + 1) =
          splitext_root in_fname @ ''-updated'' @ str_nat k @ ''.smi'')" .
    then show ?thesis
    proof
      assume "new_name_loop existing in_fname ?next (suffix + 1) = ?next"
      with step have "new_name_loop existing in_fname new_in_fname suffix = ?next" by simp
      then show ?thesis by (intro disjI2 exI [of _ suffix]) simp
    next
      assume "\<exists>k\<ge>suffix + 1. new_name_loop existing in_fname ?next (suffix + 1) =
          splitext_root in_fname @ ''-updated'' @ str_nat k @ ''.smi''"
      then obtain k where "suffix + 1 \<le> k" "new_name_loop existing in_fname ?next (suffix + 1) =
          splitext_root in_fname @ ''-updated'' @ str_nat k @ ''.smi''" by blast
      with step show ?thesis by (intro disjI2 exI [of _ k]) simp
    qed
  qed
qed

lemma sum_flags_nonneg: "0 \<le> sum_flags flags"
  unfolding sum_flags_def by (induction flags) auto

lemma sum_flags_pos: "sum_flags flags > 0 \<longleftrightarrow> True \<in> set flags"
proof (induction flags)
  case Nil
  show ?case by (simp add: sum_flags_def)
next
  case (Cons b flags)
  have "sum_flags (b # flags) = (if b then 1 else 0) + sum_flags flags"
    by (simp add: sum_flags_def)
  with Cons sum_flags_nonneg [of flags] show ?case by (cases b) auto
qed

lemma create_db_manifest:
  assumes "endswith (lower out_fname) ''.dat''"
  shows "\<exists>run. create_db tk existing records in_fname out_fname nconf nstereo energy rms bin_step pharm_def seed
            = Inr run
          \<and> manifest run = write_manifest existing in_fname
               (box_smi_of (check_dupl_input records)) (box_mol_ids_of (check_dupl_input records))
               (box_flags_of (check_dupl_input records))"
proof -
  obtain mols smis cids flags where b: "check_dupl_input records = (mols, smis, cids, flags)"
    by (cases "check_dupl_input records") auto
  obtain db' err where f: "fold (\<lambda>mol_cid.
                       write_unit (gen_data tk mol_cid nconf nstereo energy rms seed bin_step pharm_def))
                     (get_mol (zip mols cids)) ([write_bin_step bin_step], []) = (db', err)"
    by (cases "fold (\<lambda>mol_cid.
                       write_unit (gen_data tk mol_cid nconf nstereo energy rms seed bin_step pharm_def))
                     (get_mol (zip mols cids)) ([write_bin_step bin_step], [])") auto
  show ?thesis
    using assms by (simp add: create_db_def b f box_smi_of_def box_mol_ids_of_def box_flags_of_def)
qed


lemma remove_confs_force_field_failure:
  "c \<in> set (GetConformers mol) \<Longrightarrow> ff (geom c) = None \<Longrightarrow>
   remove_confs ff G mol energy rms =
     (mol, [MolToSmiles mol @ ''. MMFFGetMoleculeForceField return NONE'' @ [CHR 0x0A]])"
  by (simp add: remove_confs_def conf_energies_None)

lemma gen_data_step_force_field_failure:
  assumes "c \<in> set (GetConformers (gen_conf tk mol nconf seed))"
    and "mmff_energy tk (geom c) = None"
  shows "gen_data_step tk nconf energy rms seed bin_step pharm_def (i, mol) ((mol_dict, ph_dict, fp_dict), err) =
     ((mol_dict @ [(i, gen_conf tk mol nconf seed)],
       ph_dict @ [(i, map fst (load_multi_conf_mol tk (gen_conf tk mol nconf seed) pharm_def bin_step))],
       fp_dict @ [(i, map snd (load_multi_conf_mol tk (gen_conf tk mol nconf seed) pharm_def bin_step))]),
      err @ [MolToSmiles (gen_conf tk mol nconf seed) @ ''. MMFFGetMoleculeForceField return NONE'' @ [CHR 0x0A]])"
  using assms
    remove_confs_force_field_failure [of c "gen_conf tk mol nconf seed" "mmff_energy tk" "conformer_rms tk" energy rms]
  by (simp add: gen_data_step_def)

lemma out_dat: "endswith (lower ''/d/out.dat'') ''.dat''"
  by code_simp

lemma out_txt: "\<not> endswith (lower ''/d/out.txt'') ''.dat''"
  by code_simp


text \<open>
  Claim C2 fails on the code. When the force field is missing, \<open>remove_confs\<close> writes its
  diagnostic and returns with the conformers untouched, and \<open>gen_data\<close> goes on: the variant
  is stored, with all its conformers, under its index, and \<open>create_db\<close> writes the molecule
  to the record store (lemma \<open>gen_data_step_force_field_failure\<close> for every toolkit). Here
  a molecule with one stereoisomer and two embedded conformers, no force field: the run goes
  on and the diagnostic is written, as the claim says, but the record store receives the
  three writes for the molecule.
\<close>

theorem force_field_failure_still_stored:
  "gen_data
     \<lparr>gen_stereo = (\<lambda>mol n. [mol]),
      gen_conf = (\<lambda>mol nconf seed. Mol (MolToSmiles mol) [Conformer 0 (0::nat), Conformer 1 1]),
      mmff_energy = (\<lambda>g. None),
      conformer_rms = (\<lambda>a b. 1 / 10),
      load_multi_conf_mol = (\<lambda>mol pharm_def bin_step. map (\<lambda>c. (geom c, geom c)) (GetConformers mol))\<rparr>
     (Mol ''[Fe]'' [], ''A'') 2 1 (Some 10) (Some (1 / 2)) (- 1) 1 None
   = ((''A'', [(0, Mol ''[Fe]'' [Conformer 0 0, Conformer 1 1])], [(0, [0, 1])], [(0, [0, 1])]),
      [''[Fe]. MMFFGetMoleculeForceField return NONE'' @ [CHR 0x0A]])
   \<and> create_db
     \<lparr>gen_stereo = (\<lambda>mol n. [mol]),
      gen_conf = (\<lambda>mol nconf seed. Mol (MolToSmiles mol) [Conformer 0 (0::nat), Conformer 1 1]),
      mmff_energy = (\<lambda>g. None),
      conformer_rms = (\<lambda>a b. 1 / 10),
      load_multi_conf_mol = (\<lambda>mol pharm_def bin_step. map (\<lambda>c. (geom c, geom c)) (GetConformers mol))\<rparr>
     [] [(Mol ''[Fe]'' [], ''A'')] ''/d/in.smi'' ''/d/out.dat'' 2 1 (Some 10) (Some (1 / 2)) 1 None (- 1)
   = Inr \<lparr>db = [write_bin_step 1,
               write_mol ''A'' [(0, Mol ''[Fe]'' [Conformer 0 0, Conformer 1 1])],
               write_pharm ''A'' [(0, [0, 1])],
               write_fp ''A'' [(0, [0, 1])]],
          manifest = None,
          stderr = [''[Fe]. MMFFGetMoleculeForceField return NONE'' @ [CHR 0x0A]]\<rparr>"
  by (simp add: create_db_def out_dat check_dupl_input_def write_unit_def gen_data_def gen_data_step_def
      remove_confs_def write_manifest_def sum_flags_def)


text \<open>
  Claim C8. When \<open>out_fname\<close> ends in \<open>.dat\<close> (in any letter case), \<open>create_db\<close> writes the
  manifest if and only if the Deduplicator set at least one flag. The manifest then goes to a path that does not
  exist yet, which is the input file name without its extension followed by \<open>-updated.smi\<close>
  or by \<open>-updated\<close>, a number from 2 on and \<open>.smi\<close>; it is tab-separated, its header row is
  \<open>smi\<close>, \<open>cid\<close>, \<open>if_changed\<close>, and it has one row of these three columns for every input
  record. With any other extension \<open>create_db\<close> raises before the input is read, and nothing
  is written.
\<close>

theorem manifest_written_iff_altered:
  "(\<not> endswith (lower out_fname) ''.dat'' \<longrightarrow>
      create_db tk existing records in_fname out_fname nconf nstereo energy rms bin_step pharm_def seed
        = Inl WrongOutputFormat)
   \<and> (endswith (lower out_fname) ''.dat'' \<longrightarrow>
      (\<exists>run. create_db tk existing records in_fname out_fname nconf nstereo energy rms bin_step pharm_def seed
                = Inr run
         \<and> (manifest run \<noteq> None \<longleftrightarrow> True \<in> set (box_flags_of (check_dupl_input records)))
         \<and> (\<forall>path content. manifest run = Some (path, content) \<longrightarrow>
               path \<notin> set existing
             \<and> (path = splitext_root in_fname @ ''-updated.smi''
                 \<or> (\<exists>k\<ge>2. path = splitext_root in_fname @ ''-updated'' @ str_nat k @ ''.smi''))
             \<and> csv_sep content = CHR 0x09
             \<and> csv_header content = [''smi'', ''cid'', ''if_changed'']
             \<and> csv_rows content =
                 map (\<lambda>(smi, cid, if_changed). [smi, cid, str_bool if_changed])
                   (zip (box_smi_of (check_dupl_input records))
                      (zip (box_mol_ids_of (check_dupl_input records))
                         (box_flags_of (check_dupl_input records)))))))"
proof (intro conjI impI)
  assume "\<not> endswith (lower out_fname) ''.dat''"
  then show "create_db tk existing records in_fname out_fname nconf nstereo energy rms bin_step pharm_def seed
        = Inl WrongOutputFormat"
    by (simp add: create_db_def)
next
  let ?b = "check_dupl_input records"
  let ?first = "splitext_root in_fname @ ''-updated.smi''"
  let ?name = "new_name_loop existing in_fname ?first 2"
  assume "endswith (lower out_fname) ''.dat''"
  then obtain run where run: "create_db tk existing records in_fname out_fname nconf nstereo energy rms
        bin_step pharm_def seed = Inr run"
    and m: "manifest run = write_manifest existing in_fname (box_smi_of ?b) (box_mol_ids_of ?b) (box_flags_of ?b)"
    using create_db_manifest by blast
  have 1: "manifest run \<noteq> None \<longleftrightarrow> True \<in> set (box_flags_of ?b)"
    unfolding m by (simp add: write_manifest_def sum_flags_pos)
  have 2: "path \<notin> set existing
             \<and> (path = ?first \<or> (\<exists>k\<ge>2. path = splitext_root in_fname @ ''-updated'' @ str_nat k @ ''.smi''))
             \<and> csv_sep content = CHR 0x09
             \<and> csv_header content = [''smi'', ''cid'', ''if_changed'']
             \<and> csv_rows content =
                 map (\<lambda>(smi, cid, if_changed). [smi, cid, str_bool if_changed])
                   (zip (box_smi_of ?b) (zip (box_mol_ids_of ?b) (box_flags_of ?b)))"
    if "manifest run = Some (path, content)" for path content
  proof -
    from that have p: "path = ?name"
      and f: "content = manifest_file (box_smi_of ?b) (box_mol_ids_of ?b) (box_flags_of ?b)"
      unfolding m by (auto simp: write_manifest_def split: if_splits)
    have "path \<notin> set existing" unfolding p by (rule new_name_loop_fresh)
    moreover have "path = ?first \<or> (\<exists>k\<ge>2. path = splitext_root in_fname @ ''-updated'' @ str_nat k @ ''.smi'')"
      unfolding p by (rule new_name_loop_form)
    ultimately show ?thesis unfolding f by (simp add: manifest_file_def)
  qed
  from run 1 2 show "\<exists>run. create_db tk existing records in_fname out_fname nconf nstereo energy rms bin_step pharm_def seed
                = Inr run
         \<and> (manifest run \<noteq> None \<longleftrightarrow> True \<in> set (box_flags_of ?b))
         \<and> (\<forall>path content. manifest run = Some (path, content) \<longrightarrow>
               path \<notin> set existing
             \<and> (path = ?first
                 \<or> (\<exists>k\<ge>2. path = splitext_root in_fname @ ''-updated'' @ str_nat k @ ''.smi''))
             \<and> csv_sep content = CHR 0x09
             \<and> csv_header content = [''smi'', ''cid'', ''if_changed'']
             \<and> csv_rows content =
                 map (\<lambda>(smi, cid, if_changed). [smi, cid, str_bool if_changed])
                   (zip (box_smi_of ?b) (zip (box_mol_ids_of ?b) (box_flags_of ?b))))"
    by blast
qed

theorem manifest_written_iff_altered_witness:
  "endswith (lower ''/d/out.dat'') ''.dat''
   \<and> (\<exists>run path content.
        create_db
          \<lparr>gen_stereo = (\<lambda>mol n. [mol]),
           gen_conf = (\<lambda>mol nconf seed. mol),
           mmff_energy = (\<lambda>g. Some (real g)),
           conformer_rms = (\<lambda>a b. 1),
           load_multi_conf_mol = (\<lambda>mol pharm_def bin_step. map (\<lambda>c. (geom c, geom c)) (GetConformers mol))\<rparr>
          [''/d/in-updated.smi'']
          [(Mol ''C'' ([] :: nat conformer list), ''A''), (Mol ''C'' [], ''A'')]
          ''/d/in.smi'' ''/d/out.dat'' 2 1 None None 1 None (- 1) = Inr run
        \<and> manifest run = Some (path, content)
        \<and> path \<notin> set [''/d/in-updated.smi'']
        \<and> csv_sep content = CHR 0x09
        \<and> csv_header content = [''smi'', ''cid'', ''if_changed'']
        \<and> csv_rows content = [[''C'', ''A'', ''False''], [''duplicate'', ''A'', ''True'']])
   \<and> write_manifest [''/d/in-updated.smi''] ''/d/in.smi'' [''C'', ''duplicate''] [''A'', ''A''] [False, True]
       = Some (''/d/in-updated2.smi'',
               \<lparr>csv_sep = CHR 0x09, csv_header = [''smi'', ''cid'', ''if_changed''],
                csv_rows = [[''C'', ''A'', ''False''], [''duplicate'', ''A'', ''True'']]\<rparr>)
   \<and> \<not> endswith (lower ''/d/out.txt'') ''.dat''
   \<and> create_db
          \<lparr>gen_stereo = (\<lambda>mol n. [mol]),
           gen_conf = (\<lambda>mol nconf seed. mol),
           mmff_energy = (\<lambda>g. Some (real g)),
           conformer_rms = (\<lambda>a b. 1),
           load_multi_conf_mol = (\<lambda>mol pharm_def bin_step. map (\<lambda>c. (geom c, geom c)) (GetConformers mol))\<rparr>
          [''/d/in-updated.smi'']
          [(Mol ''C'' ([] :: nat conformer list), ''A''), (Mol ''C'' [], ''A'')]
          ''/d/in.smi'' ''/d/out.txt'' 2 1 None None 1 None (- 1) = Inl WrongOutputFormat"
proof -
  let ?tk = "\<lparr>gen_stereo = (\<lambda>(mol :: nat mol) (n :: nat). [mol]),
           gen_conf = (\<lambda>mol (nconf :: nat) (seed :: int). mol),
           mmff_energy = (\<lambda>g. Some (real g)),
           conformer_rms = (\<lambda>a b. 1),
           load_multi_conf_mol = (\<lambda>mol (pharm_def :: string option) (bin_step :: nat).
              map (\<lambda>c. (geom c, geom c)) (GetConformers mol))\<rparr>"
  let ?ex = "[''/d/in-updated.smi'']"
  let ?recs = "[(Mol ''C'' ([] :: nat conformer list), ''A''), (Mol ''C'' [], ''A'')]"
  have b: "check_dupl_input ?recs =
      ([MolObj (Mol ''C'' []), DuplicateStr], [''C'', ''duplicate''], [''A'', ''A''], [False, True])"
    by code_simp
  have w: "write_manifest ?ex ''/d/in.smi'' [''C'', ''duplicate''] [''A'', ''A''] [False, True]
       = Some (''/d/in-updated2.smi'',
               \<lparr>csv_sep = CHR 0x09, csv_header = [''smi'', ''cid'', ''if_changed''],
                csv_rows = [[''C'', ''A'', ''False''], [''duplicate'', ''A'', ''True'']]\<rparr>)"
    by code_simp
  note inst1 = manifest_written_iff_altered [of "''/d/out.dat''" ?tk ?ex ?recs "''/d/in.smi''" 2 1 None None 1 None "- 1"]
  note inst2 = manifest_written_iff_altered [of "''/d/out.txt''" ?tk ?ex ?recs "''/d/in.smi''" 2 1 None None 1 None "- 1"]
  from inst1 out_dat obtain run where run:
    "create_db ?tk ?ex ?recs ''/d/in.smi'' ''/d/out.dat'' 2 1 None None 1 None (- 1) = Inr run"
    "manifest run \<noteq> None \<longleftrightarrow> True \<in> set (box_flags_of (check_dupl_input ?recs))"
    "\<forall>path content. manifest run = Some (path, content) \<longrightarrow>
               path \<notin> set ?ex
             \<and> (path = splitext_root ''/d/in.smi'' @ ''-updated.smi''
                 \<or> (\<exists>k\<ge>2. path = splitext_root ''/d/in.smi'' @ ''-updated'' @ str_nat k @ ''.smi''))
             \<and> csv_sep content = CHR 0x09
             \<and> csv_header content = [''smi'', ''cid'', ''if_changed'']
             \<and> csv_rows content =
                 map (\<lambda>(smi, cid, if_changed). [smi, cid, str_bool if_changed])
                   (zip (box_smi_of (check_dupl_input ?recs))
                      (zip (box_mol_ids_of (check_dupl_input ?recs))
                         (box_flags_of (check_dupl_input ?recs))))"
    by blast
  from run(2) have "manifest run \<noteq> None" unfolding b by (simp add: box_flags_of_def)
  then obtain path content where m: "manifest run = Some (path, content)" by auto
  with run(3) have p: "path \<notin> set ?ex" "csv_sep content = CHR 0x09"
    "csv_header content = [''smi'', ''cid'', ''if_changed'']"
    "csv_rows content =
                 map (\<lambda>(smi, cid, if_changed). [smi, cid, str_bool if_changed])
                   (zip (box_smi_of (check_dupl_input ?recs))
                      (zip (box_mol_ids_of (check_dupl_input ?recs))
                         (box_flags_of (check_dupl_input ?recs))))"
    by blast+
  from p(4) have rows: "csv_rows content = [[''C'', ''A'', ''False''], [''duplicate'', ''A'', ''True'']]"
    unfolding b by (simp add: box_smi_of_def box_mol_ids_of_def box_flags_of_def str_bool_def)
  from inst2 out_txt have e: "create_db ?tk ?ex ?recs ''/d/in.smi'' ''/d/out.txt'' 2 1 None None 1 None (- 1)
      = Inl WrongOutputFormat"
    by blast
  from run(1) m p(1,2,3) rows have "\<exists>run path content.
        create_db ?tk ?ex ?recs ''/d/in.smi'' ''/d/out.dat'' 2 1 None None 1 None (- 1) = Inr run
        \<and> manifest run = Some (path, content)
        \<and> path \<notin> set ?ex
        \<and> csv_sep content = CHR 0x09
        \<and> csv_header content = [''smi'', ''cid'', ''if_changed'']
        \<and> csv_rows content = [[''C'', ''A'', ''False''], [''duplicate'', ''A'', ''True'']]"
    by blast
  with out_dat w out_txt e show ?thesis by blast
qed

end
